theory Spec2Isabelle
  imports Main "HOL-Library.Sublist" "HOL-Library.AList" "HOL-Library.Char_ord"
    "HOL-Library.List_Lexorder"
begin

section \<open>Strings\<close>

text \<open>
  A Go string is a sequence of bytes, and so is a HOL \<^typ>\<open>string\<close>. The functions of
  package \<^verbatim>\<open>strings\<close> that the scanner calls are written out here on byte lists.
\<close>

text \<open>\<^verbatim>\<open>strings.Contains(s, substr)\<close>: \<open>substr\<close> starts at some position of \<open>s\<close>.\<close>

fun Contains :: "string \<Rightarrow> string \<Rightarrow> bool" where
  "Contains [] substr = (substr = [])"
| "Contains (c # cs) substr = (prefix substr (c # cs) \<or> Contains cs substr)"

text \<open>
  \<^verbatim>\<open>strings.ReplaceAll(s, old, new)\<close> for a non-empty \<open>old\<close>: the occurrences of
  \<open>old\<close> are taken from left to right without overlap. (For an empty \<open>old\<close> Go inserts
  \<open>new\<close> at every rune boundary; the scanner only ever passes the constant token, so
  that case is left as the identity here and no statement below relies on it.)
\<close>

function ReplaceAll :: "string \<Rightarrow> string \<Rightarrow> string \<Rightarrow> string" where
  "ReplaceAll s old new =
     (if old = [] \<or> s = [] then s
      else if prefix old s then new @ ReplaceAll (drop (length old) s) old new
      else hd s # ReplaceAll (tl s) old new)"
  by pat_completeness auto
termination
  by (relation "measure (\<lambda>(s, old, new). length s)") auto

declare ReplaceAll.simps [simp del]

text \<open>\<^verbatim>\<open>strings.Join(elems, sep)\<close>.\<close>

fun Join :: "string list \<Rightarrow> string \<Rightarrow> string" where
  "Join [] sep = []"
| "Join [x] sep = x"
| "Join (x # y # ys) sep = x @ sep @ Join (y # ys) sep"

text \<open>
  \<^verbatim>\<open>strings.Split(s, sep)\<close> for a non-empty \<open>sep\<close>: the pieces of \<open>s\<close> between the
  occurrences of \<open>sep\<close>, taken from left to right without overlap. (An empty \<open>sep\<close>,
  for which Go splits after every rune, is not used; it is left as the one piece \<open>s\<close>.)
\<close>

function Split :: "string \<Rightarrow> string \<Rightarrow> string list" where
  "Split s old =
     (if old = [] \<or> s = [] then [s]
      else if prefix old s then [] # Split (drop (length old) s) old
      else (case Split (tl s) old of
              [] \<Rightarrow> [[hd s]]
            | seg # rest \<Rightarrow> (hd s # seg) # rest))"
  by pat_completeness auto
termination
  by (relation "measure (\<lambda>(s, old). length s)") auto

declare Split.simps [simp del]

text \<open>
  \<^verbatim>\<open>strings.Cut(s, sep)\<close>: the text before and after the first occurrence of \<open>sep\<close>, and
  whether there is one; without an occurrence the whole of \<open>s\<close> is the first component.
\<close>

fun Cut :: "string \<Rightarrow> string \<Rightarrow> string \<times> string \<times> bool" where
  "Cut [] sep = ([], [], sep = [])"
| "Cut (c # cs) sep =
     (if prefix sep (c # cs) then ([], drop (length sep) (c # cs), True)
      else case Cut cs sep of (before, after, found) \<Rightarrow> (c # before, after, found))"

section \<open>Package net/url: query strings\<close>

text \<open>
  The generator calls \<^verbatim>\<open>url.Parse\<close>, \<^verbatim>\<open>URL.Query\<close>, \<^verbatim>\<open>Values.Set\<close>, \<^verbatim>\<open>Values.Add\<close>,
  \<^verbatim>\<open>Values.Encode\<close> and \<^verbatim>\<open>URL.String\<close> of the Go standard library. Their treatment of
  the query component is written out below as the library (Go 1.17 and later) defines it.
\<close>

definition ishex :: "char \<Rightarrow> bool" where
  "ishex c \<longleftrightarrow> (CHR ''0'' \<le> c \<and> c \<le> CHR ''9'') \<or> (CHR ''a'' \<le> c \<and> c \<le> CHR ''f'')
     \<or> (CHR ''A'' \<le> c \<and> c \<le> CHR ''F'')"

definition unhex :: "char \<Rightarrow> nat" where
  "unhex c =
     (if CHR ''0'' \<le> c \<and> c \<le> CHR ''9'' then of_char c - of_char CHR ''0''
      else if CHR ''a'' \<le> c \<and> c \<le> CHR ''f'' then of_char c - of_char CHR ''a'' + 10
      else if CHR ''A'' \<le> c \<and> c \<le> CHR ''F'' then of_char c - of_char CHR ''A'' + 10
      else 0)"

definition upperhex :: "string" where
  "upperhex = ''0123456789ABCDEF''"

text \<open>
  \<^verbatim>\<open>shouldEscape(c, encodeQueryComponent)\<close>: only letters, digits and the four marks
  \<^verbatim>\<open>- _ . ~\<close> are written as they are.
\<close>

definition shouldEscape :: "char \<Rightarrow> bool" where
  "shouldEscape c \<longleftrightarrow>
     \<not> ((CHR ''a'' \<le> c \<and> c \<le> CHR ''z'') \<or> (CHR ''A'' \<le> c \<and> c \<le> CHR ''Z'')
        \<or> (CHR ''0'' \<le> c \<and> c \<le> CHR ''9'') \<or> c \<in> set ''-_.~'')"

definition escape_byte :: "char \<Rightarrow> string" where
  "escape_byte c =
     (if c = CHR '' '' then ''+''
      else if shouldEscape c
        then [CHR ''%'', upperhex ! (of_char c div 16), upperhex ! (of_char c mod 16)]
      else [c])"

text \<open>\<^verbatim>\<open>url.QueryEscape\<close>.\<close>

definition QueryEscape :: "string \<Rightarrow> string" where
  "QueryEscape s = concat (map escape_byte s)"

text \<open>
  \<^verbatim>\<open>url.QueryUnescape\<close>; \<open>None\<close> is the \<^verbatim>\<open>EscapeError\<close> for a \<^verbatim>\<open>%\<close> that is not followed
  by two hexadecimal digits. (The library validates in a first pass and decodes in a
  second; one pass gives the same result.)
\<close>

fun QueryUnescape :: "string \<Rightarrow> string option" where
  "QueryUnescape [] = Some []"
| "QueryUnescape (c # cs) =
     (if c = CHR ''%'' then
        (case cs of
           h1 # h2 # rest \<Rightarrow>
             if ishex h1 \<and> ishex h2
             then map_option ((#) (char_of (unhex h1 * 16 + unhex h2))) (QueryUnescape rest)
             else None
         | _ \<Rightarrow> None)
      else if c = CHR ''+'' then map_option ((#) CHR '' '') (QueryUnescape cs)
      else map_option ((#) c) (QueryUnescape cs))"

text \<open>
  \<^verbatim>\<open>url.Values\<close> is a \<^verbatim>\<open>map[string][]string\<close>. It is kept as an association list with
  distinct keys, in the order in which the keys were first inserted, so that the order in
  which the keys were parsed stays visible; the order in which Go iterates over the map is
  a separate matter (see \<open>range_keys\<close> below).
\<close>

type_synonym Values = "(string \<times> string list) list"

definition Get_all :: "Values \<Rightarrow> string \<Rightarrow> string list" where
  "Get_all v key = (case map_of v key of Some vs \<Rightarrow> vs | None \<Rightarrow> [])"

definition Set :: "Values \<Rightarrow> string \<Rightarrow> string \<Rightarrow> Values" where
  "Set v key val = AList.update key [val] v"

definition Add :: "Values \<Rightarrow> string \<Rightarrow> string \<Rightarrow> Values" where
  "Add v key val = AList.update key (Get_all v key @ [val]) v"

lemma Cut_shorter: "query \<noteq> [] \<Longrightarrow> Cut query [a] = (key, rest, found) \<Longrightarrow> length rest < length query"
proof (induction query arbitrary: key rest found)
  case Nil
  then show ?case by simp
next
  case (Cons c cs)
  show ?case
  proof (cases "c = a")
    case True
    with Cons.prems show ?thesis by auto
  next
    case False
    obtain b r f where cut: "Cut cs [a] = (b, r, f)" by (cases "Cut cs [a]")
    with False Cons.prems have rest: "rest = r" by auto
    show ?thesis
    proof (cases cs)
      case Nil
      with cut rest show ?thesis by simp
    next
      case (Cons d ds)
      with Cons.IH [OF _ cut] rest show ?thesis by simp
    qed
  qed
qed

text \<open>
  \<^verbatim>\<open>parseQuery\<close>: the pairs are cut off at \<^verbatim>\<open>&\<close> one after the other; a pair with a
  semicolon, an empty pair and a pair whose key or value does not unescape are skipped
  (\<^verbatim>\<open>URL.Query\<close> discards the error that the library records for them).
\<close>

function parseQuery :: "Values \<Rightarrow> string \<Rightarrow> Values" where
  "parseQuery m query =
     (if query = [] then m
      else case Cut query ''&'' of (key, rest, _) \<Rightarrow>
        if Contains key '';'' then parseQuery m rest
        else if key = [] then parseQuery m rest
        else case Cut key ''='' of (k, val, _) \<Rightarrow>
          (case QueryUnescape k of
             None \<Rightarrow> parseQuery m rest
           | Some k' \<Rightarrow>
               (case QueryUnescape val of
                  None \<Rightarrow> parseQuery m rest
                | Some val' \<Rightarrow> parseQuery (Add m k' val') rest)))"
  by pat_completeness auto
termination
  by (relation "measure (\<lambda>(m, query). length query)") (auto dest: Cut_shorter [OF _ sym])

declare parseQuery.simps [simp del]

definition ParseQuery :: "string \<Rightarrow> Values" where
  "ParseQuery query = parseQuery [] query"

text \<open>
  \<^verbatim>\<open>Values.Encode\<close>: the keys in sorted (bytewise) order, every value of a key in its
  order, each pair as \<^verbatim>\<open>QueryEscape(key)=QueryEscape(value)\<close>, joined by \<^verbatim>\<open>&\<close>.
\<close>

definition Encode :: "Values \<Rightarrow> string" where
  "Encode v =
     Join (concat (map (\<lambda>k. map (\<lambda>val. QueryEscape k @ ''='' @ QueryEscape val) (Get_all v k))
                       (sort (map fst v))))
          ''&''"

text \<open>
  Two notions for the statements about query strings: the values that the parser builds
  have distinct keys and no key without a value, and a pair is written as
  \<^verbatim>\<open>QueryEscape(key)=QueryEscape(value)\<close>.
\<close>

definition well_formed :: "Values \<Rightarrow> bool" where
  "well_formed v \<longleftrightarrow> distinct (map fst v) \<and> (\<forall>k vs. map_of v k = Some vs \<longrightarrow> vs \<noteq> [])"

definition pair_text :: "string \<times> string \<Rightarrow> string" where
  "pair_text p = QueryEscape (fst p) @ ''='' @ QueryEscape (snd p)"

section \<open>Package net/url: URLs\<close>

text \<open>
  Of a parsed URL only the query is looked at by the generator; scheme, authority and path
  are parsed by the library and written back by \<^verbatim>\<open>URL.String\<close>, and so is the fragment.
  The record keeps the text that \<^verbatim>\<open>URL.String\<close> writes for them: \<open>Head\<close> stands for the
  fields \<^verbatim>\<open>Scheme\<close>, \<^verbatim>\<open>Opaque\<close>, \<^verbatim>\<open>User\<close>, \<^verbatim>\<open>Host\<close>, \<^verbatim>\<open>Path\<close>, \<^verbatim>\<open>RawPath\<close> and \<^verbatim>\<open>OmitHost\<close>,
  \<open>Fragment\<close> for \<^verbatim>\<open>Fragment\<close> and \<^verbatim>\<open>RawFragment\<close> (\<open>None\<close> when the URL has no fragment).
\<close>

record URL =
  Head :: string
  ForceQuery :: bool
  RawQuery :: string
  Fragment :: "string option"

text \<open>
  What the library and the runtime decide and the repository does not: how the text
  before the \<^verbatim>\<open>?\<close> is parsed and written back (an error message, or the head as
  \<^verbatim>\<open>URL.String\<close> writes it), the same for a fragment, and the order in which a
  \<^verbatim>\<open>range\<close> statement visits the keys of a map, which Go leaves unspecified.
\<close>

record golib =
  parse_head :: "string \<Rightarrow> string + string"
  parse_fragment :: "string \<Rightarrow> string + string"
  range_keys :: "Values \<Rightarrow> string list"

definition range_ok :: "golib \<Rightarrow> Values \<Rightarrow> bool" where
  "range_ok lib m \<longleftrightarrow> distinct (range_keys lib m) \<and> set (range_keys lib m) = set (map fst m)"

definition stringContainsCTLByte :: "string \<Rightarrow> bool" where
  "stringContainsCTLByte s \<longleftrightarrow> (\<exists>b \<in> set s. b < CHR '' '' \<or> b = CHR 0x7F)"

text \<open>
  \<^verbatim>\<open>url.Parse\<close>: the fragment is cut off at the first \<^verbatim>\<open>#\<close>, a control byte is an error,
  the query is what follows the first \<^verbatim>\<open>?\<close>, and \<^verbatim>\<open>ForceQuery\<close> is set for a URL that
  ends in its only \<^verbatim>\<open>?\<close>. An error is kept as its message, without the prefix
  \<^verbatim>\<open>parse "<url>":\<close> that the library puts in front of it.
\<close>

definition Parse :: "golib \<Rightarrow> string \<Rightarrow> string + URL" where
  "Parse lib rawURL =
     (case Cut rawURL ''#'' of (u, frag, _) \<Rightarrow>
        if stringContainsCTLByte u then Inl ''net/url: invalid control character in URL''
        else case Cut u ''?'' of (rest, query, _) \<Rightarrow>
          (case parse_head lib rest of
             Inl e \<Rightarrow> Inl e
           | Inr h \<Rightarrow>
               let url = \<lparr>Head = h, ForceQuery = (suffix ''?'' u \<and> count_list u CHR ''?'' = 1),
                          RawQuery = query, Fragment = None\<rparr>
               in if frag = [] then Inr url
                  else (case parse_fragment lib frag of
                          Inl e \<Rightarrow> Inl e
                        | Inr f \<Rightarrow> Inr (url\<lparr>Fragment := Some f\<rparr>))))"

definition Query :: "URL \<Rightarrow> Values" where
  "Query u = ParseQuery (RawQuery u)"

definition String :: "URL \<Rightarrow> string" where
  "String u =
     Head u
     @ (if ForceQuery u \<or> RawQuery u \<noteq> [] then ''?'' @ RawQuery u else [])
     @ (case Fragment u of None \<Rightarrow> [] | Some f \<Rightarrow> ''#'' @ f)"

section \<open>Target generation\<close>

datatype error = InvalidURL string | NoInjectionPoints

text \<open>
  The copy of the query parameters that the inner loop of \<^verbatim>\<open>GenerateTargetURLs\<close>
  builds for one key: the key itself is set to the payload, every other key gets its
  values added one by one. The inner loop is a \<^verbatim>\<open>range\<close> over the same map as the outer
  one; the copy is a map again and is written out with its keys sorted, so the order of
  the inner loop does not show in the result.
\<close>

definition newParams :: "golib \<Rightarrow> Values \<Rightarrow> string \<Rightarrow> string \<Rightarrow> Values" where
  "newParams lib queryParams key payload =
     fold (\<lambda>k np. if k = key then Set np k payload
                   else fold (\<lambda>val np'. Add np' k val) (Get_all queryParams k) np)
          (range_keys lib queryParams) []"

definition GenerateTargetURLs :: "golib \<Rightarrow> string \<Rightarrow> string \<Rightarrow> error + string list" where
  "GenerateTargetURLs lib inputURL payload =
     (if Contains inputURL ''{payload}''
      then Inr [ReplaceAll inputURL ''{payload}'' payload]
      else case Parse lib inputURL of
        Inl e \<Rightarrow> Inl (InvalidURL e)
      | Inr u \<Rightarrow>
          let queryParams = Query u in
          if length queryParams = 0 then Inl NoInjectionPoints
          else Inr (map (\<lambda>key. String (u\<lparr>RawQuery := Encode (newParams lib queryParams key payload)\<rparr>))
                        (range_keys lib queryParams)))"

section \<open>The character alphabet and the encoding table\<close>

text \<open>
  \<^verbatim>\<open>specialChars\<close> and \<^verbatim>\<open>conversions\<close> of package \<^verbatim>\<open>scanner\<close>. The quote characters
  and the backslash are written by their byte values.
\<close>

definition specialChars :: "string list" where
  "specialChars =
     [[CHR 0x27], [CHR 0x22], ''<'', ''>'', ''('', '')'', [CHR 0x60], ''{'', ''}'', ''/'',
      [CHR 0x5C], '';'']"

definition conversions :: "string \<Rightarrow> string option" where
  "conversions =
     map_of [([CHR 0x27], ''&#039;''), ([CHR 0x22], ''&quot;''), (''<'', ''&lt;''),
             (''>'', ''&gt;'')]"

section \<open>Classification of one probe response\<close>

datatype verdict = ALLOWED | CONVERTED | BLOCKED

text \<open>
  The three-way branch at the end of the probe loop of \<^verbatim>\<open>checkSpecialChars\<close>, as a
  function of its own. The source writes the marker as the literal \<^verbatim>\<open>"rix4uni"\<close>; it is a
  parameter here. The loop itself is \<open>probe\<close> below, with the branch as the source has
  it; lemma \<open>probe_cases\<close> shows that it files a character by this verdict.
\<close>

definition classify :: "string \<Rightarrow> string \<Rightarrow> string \<Rightarrow> verdict" where
  "classify testBody marker char =
     (if Contains testBody (marker @ char) then ALLOWED
      else case conversions char of
             Some conv \<Rightarrow> if Contains testBody (marker @ conv) then CONVERTED else BLOCKED
           | None \<Rightarrow> BLOCKED)"

section \<open>The scanner\<close>

text \<open>
  What a run does to the outside is kept as a trace: the static requests sent, the pages
  rendered, and what is written to standard output. A JSON document is kept as a tree,
  not as the indented text that \<^verbatim>\<open>json.MarshalIndent\<close> lays out.
\<close>

datatype json =
  JNull | JBool bool | JNumber int | JString string | JArray "json list"
  | JObject "(string \<times> json) list"

datatype event = Request string | Navigation string | Stdout string | StdoutJSON json

record 'w state =
  world :: 'w
  trace :: "event list"

record Options =
  UserAgent :: string
  Timeout :: int
  SkipSpecialChar :: bool
  NoColor :: bool
  Verbose :: bool
  JSONOutput :: bool
  Proxy :: string
  Concurrency :: int
  VerifySSL :: bool

text \<open>
  A slice that is \<^verbatim>\<open>nil\<close> is \<open>None\<close>, and so is the \<^verbatim>\<open>nil\<close> map: \<^verbatim>\<open>encoding/json\<close>
  writes \<^verbatim>\<open>null\<close> for them and \<^verbatim>\<open>[]\<close> for an empty slice that is not \<^verbatim>\<open>nil\<close>.
\<close>

record JSONOutput =
  Processing :: string
  BaseURL :: string
  Reflected :: bool
  Allowed :: "string list option"
  Blocked :: "string list option"
  Converted :: "string list option"
  Count :: "(string \<times> int) list option"

definition zero_JSONOutput :: JSONOutput where
  "zero_JSONOutput =
     \<lparr>Processing = [], BaseURL = [], Reflected = False, Allowed = None, Blocked = None,
      Converted = None, Count = None\<rparr>"

definition slice_json :: "string list option \<Rightarrow> json" where
  "slice_json xs = (case xs of None \<Rightarrow> JNull | Some ys \<Rightarrow> JArray (map JString ys))"

definition map_json :: "(string \<times> int) list option \<Rightarrow> json" where
  "map_json m =
     (case m of None \<Rightarrow> JNull
      | Some kvs \<Rightarrow> JObject (map (\<lambda>(k, n). (k, JNumber n)) (sort_key fst kvs)))"

text \<open>\<^verbatim>\<open>json.Marshal\<close> of a \<^verbatim>\<open>JSONOutput\<close>: the fields under their tags, a map with its keys sorted.\<close>

definition Marshal :: "JSONOutput \<Rightarrow> json" where
  "Marshal output =
     JObject [(''processing'', JString (Processing output)),
              (''baseurl'', JString (BaseURL output)),
              (''reflected'', JBool (Reflected output)),
              (''allowed'', slice_json (Allowed output)),
              (''blocked'', slice_json (Blocked output)),
              (''converted'', slice_json (Converted output)),
              (''count'', map_json (Count output))]"

text \<open>
  The scanner with its options and what surrounds it; \<open>client\<close> stands for one GET with
  the given user agent through \<^verbatim>\<open>http.Client\<close> and the reading of the body,
  \<open>domScanner\<close> for one \<^verbatim>\<open>DOMScanner.GetDOM\<close>, each answering with an error message or
  a body and changing the world outside.

  The Go runtime starts every \<^verbatim>\<open>range\<close> over a map at a position it draws at random, so
  two calls of \<^verbatim>\<open>GenerateTargetURLs\<close> on the same URL may list the candidates in different
  orders. The random source is part of the world: \<open>range_order\<close> gives the order in which
  the keys are visited in a given state of the world, and \<open>runtime\<close> is the library with
  that order. Two calls of the generator that return candidates are always separated by a
  request or a rendering, which hands back the next world, so any sequence of orders that
  a real run shows is the one of some world that carries the state of the random source.
\<close>

record 'w Scanner =
  opts :: Options
  client :: "string \<Rightarrow> string \<Rightarrow> 'w \<Rightarrow> (string + string) \<times> 'w"
  domScanner :: "string \<Rightarrow> 'w \<Rightarrow> (string + string) \<times> 'w"
  range_order :: "'w \<Rightarrow> Values \<Rightarrow> string list"

definition runtime :: "golib \<Rightarrow> 'w Scanner \<Rightarrow> 'w \<Rightarrow> golib" where
  "runtime lib s w = lib\<lparr>range_keys := range_order s w\<rparr>"

definition Print :: "string \<Rightarrow> 'w state \<Rightarrow> 'w state" where
  "Print text st = st\<lparr>trace := trace st @ [Stdout text]\<rparr>"

definition ESC :: string where
  "ESC = [CHR 0x1B]"

definition LF :: string where
  "LF = [CHR 0x0A]"

text \<open>\<^verbatim>\<open>%v\<close> of a slice of strings.\<close>

definition Sprint_slice :: "string list \<Rightarrow> string" where
  "Sprint_slice xs = ''['' @ Join xs '' '' @ '']''"

definition Error_text :: "error \<Rightarrow> string" where
  "Error_text err =
     (case err of InvalidURL e \<Rightarrow> ''invalid URL: '' @ e
      | NoInjectionPoints \<Rightarrow> ''no injection points found'')"

definition fetch :: "'w Scanner \<Rightarrow> string \<Rightarrow> 'w state \<Rightarrow> (string + string) \<times> 'w state" where
  "fetch s url st =
     (case client s (UserAgent (opts s)) url (world st) of
        (r, w) \<Rightarrow> (r, \<lparr>world = w, trace = trace st @ [Request url]\<rparr>))"

definition GetDOM :: "'w Scanner \<Rightarrow> string \<Rightarrow> 'w state \<Rightarrow> (string + string) \<times> 'w state" where
  "GetDOM s url st =
     (case domScanner s url (world st) of
        (r, w) \<Rightarrow> (r, \<lparr>world = w, trace = trace st @ [Navigation url]\<rparr>))"

definition printReflected :: "'w Scanner \<Rightarrow> bool \<Rightarrow> 'w state \<Rightarrow> 'w state" where
  "printReflected s reflected st =
     (if JSONOutput (opts s) then st
      else if reflected then
        (if NoColor (opts s) then Print (''REFLECTED: YES'' @ LF) st
         else Print (ESC @ ''[92mREFLECTED: YES'' @ ESC @ ''[0m'' @ LF) st)
      else
        (if NoColor (opts s) then Print (''REFLECTED: NO'' @ LF) st
         else Print (ESC @ ''[91mREFLECTED: NO'' @ ESC @ ''[0m'' @ LF) st))"

definition printJSON :: "'w Scanner \<Rightarrow> JSONOutput \<Rightarrow> 'w state \<Rightarrow> 'w state" where
  "printJSON s output st =
     (if \<not> JSONOutput (opts s) then st
      else
        let output1 = (if Allowed output = None then output\<lparr>Allowed := Some []\<rparr> else output);
            output2 = (if Blocked output1 = None then output1\<lparr>Blocked := Some []\<rparr> else output1);
            output3 = (if Converted output2 = None then output2\<lparr>Converted := Some []\<rparr>
                       else output2);
            output4 = (if Count output3 = None
                       then output3\<lparr>Count := Some [(''allowed'', 0), (''blocked'', 0),
                                                     (''converted'', 0)]\<rparr>
                       else output3)
        in st\<lparr>trace := trace st @ [StdoutJSON (Marshal output4)]\<rparr>)"

text \<open>The three result slices of \<^verbatim>\<open>checkSpecialChars\<close>.\<close>

record results =
  allowed :: "string list"
  blocked :: "string list"
  converted :: "string list"

text \<open>\<^verbatim>\<open>fmt.Sprintf("%s \<dots> %s", char, conv)\<close>; the arrow between them is U+2794 in UTF-8.\<close>

definition Sprintf_conv :: "string \<Rightarrow> string \<Rightarrow> string" where
  "Sprintf_conv char conv = char @ '' '' @ [CHR 0xE2, CHR 0x9E, CHR 0x94] @ '' '' @ conv"

text \<open>
  One round of the loop over \<^verbatim>\<open>specialChars\<close> in \<^verbatim>\<open>checkSpecialChars\<close>. Every round
  calls the generator anew, under the key order of the world as it is in that round, and
  takes the first candidate of that call.
\<close>

definition probe ::
  "golib \<Rightarrow> 'w Scanner \<Rightarrow> string \<Rightarrow> bool \<Rightarrow> string \<Rightarrow> results \<times> 'w state \<Rightarrow> results \<times> 'w state"
where
  "probe lib s inputURL reflectedInDOM char acc =
     (case acc of (res, st) \<Rightarrow>
        (case GenerateTargetURLs (runtime lib s (world st)) inputURL (''rix4uni'' @ char) of
           Inl err \<Rightarrow> (res, st)
         | Inr [] \<Rightarrow> (res, st)
         | Inr (testURL # _) \<Rightarrow>
             let st1 = (if Verbose (opts s) \<and> \<not> JSONOutput (opts s) then
                          (if NoColor (opts s) then Print (''CHECKING: '' @ testURL @ LF) st
                           else Print (ESC @ ''[95mCHECKING: '' @ testURL @ ESC @ ''[0m'' @ LF) st)
                        else st)
             in (case (if reflectedInDOM then GetDOM s testURL st1 else fetch s testURL st1) of
                   (Inl err, st2) \<Rightarrow> (res, st2)
                 | (Inr testBody, st2) \<Rightarrow>
                     if Contains testBody (''rix4uni'' @ char)
                     then (res\<lparr>allowed := allowed res @ [char]\<rparr>, st2)
                     else (case conversions char of
                             Some conv \<Rightarrow>
                               if Contains testBody (''rix4uni'' @ conv)
                               then (res\<lparr>converted := converted res @ [Sprintf_conv char conv]\<rparr>,
                                     st2)
                               else (res\<lparr>blocked := blocked res @ [char]\<rparr>, st2)
                           | None \<Rightarrow> (res\<lparr>blocked := blocked res @ [char]\<rparr>, st2)))))"

definition probes ::
  "golib \<Rightarrow> 'w Scanner \<Rightarrow> string \<Rightarrow> bool \<Rightarrow> string list \<Rightarrow> results \<times> 'w state \<Rightarrow> results \<times> 'w state"
where
  "probes lib s inputURL reflectedInDOM chars acc =
     fold (probe lib s inputURL reflectedInDOM) chars acc"

definition checkSpecialChars ::
  "golib \<Rightarrow> 'w Scanner \<Rightarrow> string \<Rightarrow> string \<Rightarrow> bool \<Rightarrow> JSONOutput \<Rightarrow> 'w state
     \<Rightarrow> JSONOutput \<times> 'w state"
where
  "checkSpecialChars lib s inputURL baseURL reflectedInDOM output st =
     (case probes lib s inputURL reflectedInDOM specialChars
             (\<lparr>allowed = [], blocked = [], converted = []\<rparr>, st) of
        (res, st1) \<Rightarrow>
          let output1 = output\<lparr>Allowed := Some (allowed res), Blocked := Some (blocked res),
                                Converted := Some (converted res),
                                Count := Some [(''allowed'', int (length (allowed res))),
                                               (''blocked'', int (length (blocked res))),
                                               (''converted'', int (length (converted res)))]\<rparr>
          in if \<not> JSONOutput (opts s) then
               (if NoColor (opts s) then
                  (output1,
                   Print (''CONVERTED: '' @ Sprint_slice (converted res) @ LF)
                     (Print (''BLOCKED: '' @ Sprint_slice (blocked res) @ LF)
                        (Print (''ALLOWED: '' @ Sprint_slice (allowed res) @ LF) st1)))
                else
                  (output1,
                   Print (ESC @ ''[33mCONVERTED: '' @ Sprint_slice (converted res) @ ESC @ ''[0m'' @ LF)
                     (Print (ESC @ ''[31mBLOCKED: '' @ Sprint_slice (blocked res) @ ESC @ ''[0m'' @ LF)
                        (Print (ESC @ ''[32mALLOWED: '' @ Sprint_slice (allowed res) @ ESC @ ''[0m''
                                @ LF) st1))))
             else (output1, st1))"

definition processBaseURL :: "golib \<Rightarrow> 'w Scanner \<Rightarrow> string \<Rightarrow> string \<Rightarrow> 'w state \<Rightarrow> 'w state" where
  "processBaseURL lib s inputURL baseURL st =
     (let output = zero_JSONOutput\<lparr>Processing := inputURL, BaseURL := baseURL\<rparr>;
          st1 = (if \<not> JSONOutput (opts s) then
                   (if NoColor (opts s) then Print (''BASEURL: '' @ baseURL @ LF) st
                    else Print (ESC @ ''[94mBASEURL: '' @ baseURL @ ESC @ ''[0m'' @ LF) st)
                 else st)
      in case fetch s baseURL st1 of
           (Inl err, st2) \<Rightarrow>
             if Verbose (opts s) then Print (''Error fetching base URL: '' @ err @ LF) st2 else st2
         | (Inr body0, st2) \<Rightarrow>
             (case (if \<not> Contains body0 ''rix4uni'' then
                      (case GetDOM s baseURL st2 of
                         (Inl err, st3) \<Rightarrow> Inl (err, st3)
                       | (Inr body1, st3) \<Rightarrow> Inr (body1, Contains body1 ''rix4uni'', st3))
                    else Inr (body0, False, st2)) of
                Inl (err, st3) \<Rightarrow>
                  if Verbose (opts s) then Print (''Error fetching DOM: '' @ err @ LF) st3 else st3
              | Inr (body, reflectedInDOM, st3) \<Rightarrow>
                  if Contains body ''rix4uni'' then
                    let output1 = output\<lparr>Reflected := True\<rparr>;
                        st4 = printReflected s True st3
                    in if SkipSpecialChar (opts s) then printJSON s output1 st4
                       else (case checkSpecialChars lib s inputURL baseURL reflectedInDOM output1 st4 of
                               (output2, st5) \<Rightarrow> printJSON s output2 st5)
                  else
                    printJSON s (output\<lparr>Reflected := False\<rparr>) (printReflected s False st3)))"

definition Scan :: "golib \<Rightarrow> 'w Scanner \<Rightarrow> string \<Rightarrow> 'w state \<Rightarrow> 'w state" where
  "Scan lib s inputURL st =
     (let st1 = (if \<not> JSONOutput (opts s) then
                   (if NoColor (opts s) then Print (LF @ ''PROCESSING: '' @ inputURL @ LF) st
                    else Print (LF @ ESC @ ''[96mPROCESSING: '' @ inputURL @ ESC @ ''[0m'' @ LF) st)
                 else st)
      in case GenerateTargetURLs (runtime lib s (world st)) inputURL ''rix4uni'' of
           Inl err \<Rightarrow>
             if Verbose (opts s)
             then Print (''Error generating target URLs: '' @ Error_text err @ LF) st1
             else st1
         | Inr baseURLs \<Rightarrow> fold (processBaseURL lib s inputURL) baseURLs st1)"

text \<open>
  The body of one worker of \<^verbatim>\<open>main\<close>: every line that the reading loop sends, blank or
  not, is scanned, one after the other.
\<close>

definition worker :: "golib \<Rightarrow> 'w Scanner \<Rightarrow> string list \<Rightarrow> 'w state \<Rightarrow> 'w state" where
  "worker lib s jobs st = fold (Scan lib s) jobs st"

section \<open>Construction of the scanner and its deadlines\<close>

text \<open>
  \<^verbatim>\<open>NewDOMScanner\<close> starts the browser with flags that depend on the proxy and on the
  certificate check; its first parameter, the timeout, is not used. The contexts it
  returns carry no deadline; the record keeps the flags added to the defaults of the
  browser driver.
\<close>

record DOMScanner =
  allocator_flags :: "(string \<times> string) list"

definition NewDOMScanner :: "int \<Rightarrow> string \<Rightarrow> bool \<Rightarrow> DOMScanner" where
  "NewDOMScanner timeout proxy verifySSL =
     \<lparr>allocator_flags =
        [(''headless'', ''true''), (''disable-gpu'', ''true''), (''no-sandbox'', ''true''),
         (''disable-dev-shm-usage'', ''true'')]
        @ (if \<not> verifySSL then [(''ignore-certificate-errors'', ''true'')] else [])
        @ (if proxy \<noteq> [] then [(''proxy-server'', proxy)] else [])\<rparr>"

text \<open>
  The deadline of one rendering, in seconds: \<^verbatim>\<open>GetDOM\<close> of package \<^verbatim>\<open>scanner\<close> runs under
  \<^verbatim>\<open>context.WithTimeout(s.ctx, 30*time.Second)\<close>.
\<close>

definition GetDOM_timeout :: "DOMScanner \<Rightarrow> int" where
  "GetDOM_timeout d = 30"

text \<open>
  \<^verbatim>\<open>NewScanner\<close>: the transport skips the certificate check unless \<^verbatim>\<open>VerifySSL\<close> is set, a
  proxy that does not parse is an error, and the client gets \<^verbatim>\<open>opts.Timeout\<close> seconds as
  its timeout.
\<close>

record http_Client =
  InsecureSkipVerify :: bool
  proxyURL :: "URL option"
  client_Timeout :: int

definition NewScanner :: "golib \<Rightarrow> Options \<Rightarrow> string + Options \<times> http_Client \<times> DOMScanner" where
  "NewScanner lib options =
     (case (if Proxy options \<noteq> [] then
              (case Parse lib (Proxy options) of
                 Inl e \<Rightarrow> Inl (''invalid proxy URL: '' @ e)
               | Inr parsed \<Rightarrow> Inr (Some parsed))
            else Inr None) of
        Inl e \<Rightarrow> Inl e
      | Inr proxy \<Rightarrow>
          Inr (options,
               \<lparr>InsecureSkipVerify = (\<not> VerifySSL options), proxyURL = proxy,
                client_Timeout = Timeout options\<rparr>,
               NewDOMScanner (Timeout options) (Proxy options) (VerifySSL options)))"

section \<open>Reading a trace\<close>

text \<open>
  The requests and renderings of a trace, the JSON documents printed in it, the trace
  event of a probe on either channel and the answer of that channel.
\<close>

definition is_network :: "event \<Rightarrow> bool" where
  "is_network e = (case e of Request _ \<Rightarrow> True | Navigation _ \<Rightarrow> True | _ \<Rightarrow> False)"

definition network :: "event list \<Rightarrow> event list" where
  "network tr = filter is_network tr"

definition printed_json :: "event list \<Rightarrow> json list" where
  "printed_json tr = concat (map (\<lambda>e. case e of StdoutJSON j \<Rightarrow> [j] | _ \<Rightarrow> []) tr)"

definition channel :: "bool \<Rightarrow> string \<Rightarrow> event" where
  "channel reflectedInDOM url = (if reflectedInDOM then Navigation url else Request url)"

definition answer :: "'w Scanner \<Rightarrow> bool \<Rightarrow> string \<Rightarrow> 'w \<Rightarrow> (string + string) \<times> 'w" where
  "answer s reflectedInDOM url w =
     (if reflectedInDOM then domScanner s url w else client s (UserAgent (opts s)) url w)"

text \<open>
  The test URLs that the probe loop tries for a list of characters, starting in the world
  \<open>w\<close>: for each character the first candidate that the generator returns under the key
  order of the world of that round, the next round being in the world that the answer of
  the channel leaves.
\<close>

fun probe_urls ::
  "golib \<Rightarrow> 'w Scanner \<Rightarrow> string \<Rightarrow> bool \<Rightarrow> string list \<Rightarrow> 'w \<Rightarrow> string list"
where
  "probe_urls lib s inputURL reflectedInDOM [] w = []"
| "probe_urls lib s inputURL reflectedInDOM (char # chars) w =
     (case GenerateTargetURLs (runtime lib s w) inputURL (''rix4uni'' @ char) of
        Inr (testURL # _) \<Rightarrow>
          testURL # probe_urls lib s inputURL reflectedInDOM chars
                      (snd (answer s reflectedInDOM testURL w))
      | _ \<Rightarrow> probe_urls lib s inputURL reflectedInDOM chars w)"

text \<open>
  What holds of the three result slices once the characters in \<open>S\<close> have had their turn.
\<close>

definition sorted_out :: "string set \<Rightarrow> results \<Rightarrow> bool" where
  "sorted_out S res \<longleftrightarrow>
     finite S \<and> (\<forall>c \<in> S. length c = 1)
     \<and> set (allowed res) \<subseteq> S \<and> set (blocked res) \<subseteq> S
     \<and> (\<forall>x \<in> set (converted res). \<exists>c \<in> S. \<exists>conv. x = Sprintf_conv c conv)
     \<and> set (allowed res) \<inter> set (blocked res) = {}
     \<and> (\<forall>c conv. length c = 1 \<and> Sprintf_conv c conv \<in> set (converted res)
            \<longrightarrow> c \<notin> set (allowed res) \<and> c \<notin> set (blocked res))
     \<and> length (allowed res) + length (blocked res) + length (converted res) \<le> card S"

text \<open>
  A record with all of its fields, the three arrays present and the counts their lengths;
  and the test URLs of the probe phase of one candidate that starts in the world \<open>w\<close>,
  none when the probes are skipped.
\<close>

definition full_record ::
  "string \<Rightarrow> string \<Rightarrow> bool \<Rightarrow> string list \<Rightarrow> string list \<Rightarrow> string list \<Rightarrow> json"
where
  "full_record processing baseurl reflected A B C =
     JObject [(''processing'', JString processing), (''baseurl'', JString baseurl),
              (''reflected'', JBool reflected),
              (''allowed'', JArray (map JString A)), (''blocked'', JArray (map JString B)),
              (''converted'', JArray (map JString C)),
              (''count'', JObject [(''allowed'', JNumber (int (length A))),
                                   (''blocked'', JNumber (int (length B))),
                                   (''converted'', JNumber (int (length C)))])]"

definition probed :: "golib \<Rightarrow> 'w Scanner \<Rightarrow> string \<Rightarrow> bool \<Rightarrow> 'w \<Rightarrow> string list" where
  "probed lib s inputURL reflectedInDOM w =
     (if SkipSpecialChar (opts s) then []
      else probe_urls lib s inputURL reflectedInDOM specialChars w)"

section \<open>Instances for the examples\<close>

text \<open>
  Three instances of the library for the examples below. \<open>plain_lib\<close> writes head and
  fragment back as they were given, which is what the library does for a URL such as
  \<^verbatim>\<open>http://x/search\<close>, and visits the keys of a map in the order of their insertion;
  \<open>reverse_lib\<close> visits them in the opposite order; \<open>failing_lib\<close> rejects every URL.
\<close>

definition plain_lib :: golib where
  "plain_lib = \<lparr>parse_head = Inr, parse_fragment = Inr, range_keys = map fst\<rparr>"

definition reverse_lib :: golib where
  "reverse_lib = \<lparr>parse_head = Inr, parse_fragment = Inr, range_keys = (\<lambda>m. rev (map fst m))\<rparr>"

definition failing_lib :: golib where
  "failing_lib =
     \<lparr>parse_head = (\<lambda>rest. Inl ''invalid URL escape''),
      parse_fragment = (\<lambda>frag. Inl ''invalid URL escape''), range_keys = map fst\<rparr>"

text \<open>
  Two sites for the examples, with the number of requests served as the world. The first
  answers a static request with the URL it was asked for, writing a double quote as its
  entity and an opening parenthesis as it is, and times out on a URL with \<^verbatim>\<open>%3C\<close>; the
  second shows the URL only in the rendered document. The keys of a map are visited in
  the order of their insertion when the world is even and in the opposite order when it
  is odd, so that successive calls of the generator differ in their first candidate.
\<close>

definition demo_opts :: Options where
  "demo_opts =
     \<lparr>UserAgent = ''xssrecon'', Timeout = 15, SkipSpecialChar = False, NoColor = True,
      Verbose = True, JSONOutput = True, Proxy = [], Concurrency = 1, VerifySSL = False\<rparr>"

definition demo_client :: "string \<Rightarrow> string \<Rightarrow> nat \<Rightarrow> (string + string) \<times> nat" where
  "demo_client userAgent url n =
     (if Contains url ''%3C'' then (Inl ''context deadline exceeded'', Suc n)
      else (Inr (''<p>'' @ ReplaceAll (ReplaceAll url ''%22'' ''&quot;'') ''%28'' ''('' @ ''</p>''),
            Suc n))"

definition demo_dom :: "string \<Rightarrow> nat \<Rightarrow> (string + string) \<times> nat" where
  "demo_dom url n = (Inr (''<html>'' @ url @ ''</html>''), Suc n)"

definition turning_order :: "nat \<Rightarrow> Values \<Rightarrow> string list" where
  "turning_order n m = (if even n then map fst m else rev (map fst m))"

definition static_site :: "nat Scanner" where
  "static_site =
     \<lparr>opts = demo_opts, client = demo_client, domScanner = demo_dom,
      range_order = turning_order\<rparr>"

definition dom_site :: "nat Scanner" where
  "dom_site =
     \<lparr>opts = demo_opts, client = (\<lambda>userAgent url n. (Inr ''<html></html>'', Suc n)),
      domScanner = demo_dom, range_order = turning_order\<rparr>"

definition start :: "nat state" where
  "start = \<lparr>world = 0, trace = []\<rparr>"

definition verbose_site :: "nat Scanner" where
  "verbose_site = static_site\<lparr>opts := demo_opts\<lparr>JSONOutput := False\<rparr>\<rparr>"

text \<open>The parsed form of \<^verbatim>\<open>http://x/?b=x%20y&a=1#top\<close>.\<close>

definition two_params :: URL where
  "two_params =
     \<lparr>Head = ''http://x/'', ForceQuery = False, RawQuery = ''b=x%20y&a=1'', Fragment = Some ''top''\<rparr>"

section \<open>Properties\<close>

subsection \<open>Replacing and splitting\<close>

text \<open>
  Replacing all occurrences of a text is splitting at it and joining the pieces again, and
  no piece contains the text.
\<close>

lemma Split_not_Nil: "Split s old \<noteq> []"
  by (subst Split.simps) (auto split: list.split)

lemma Join_Cons: "ys \<noteq> [] \<Longrightarrow> Join (x # ys) sep = x @ sep @ Join ys sep"
  by (cases ys) auto

lemma Join_Cons_head: "Join ((c # seg) # rest) sep = c # Join (seg # rest) sep"
  by (cases rest) auto

lemma Join_Split: "old \<noteq> [] \<Longrightarrow> Join (Split s old) old = s"
proof (induction s old rule: Split.induct)
  case (1 s old)
  show ?case
  proof (cases "s = []")
    case True
    then show ?thesis by (subst Split.simps) simp
  next
    case ne: False
    show ?thesis
    proof (cases "prefix old s")
      case True
      then obtain r where s: "s = old @ r" by (auto simp: prefix_def)
      from True ne "1.prems" "1.IH"(1) have "Join (Split (drop (length old) s) old) old = drop (length old) s"
        by simp
      with True ne "1.prems" s show ?thesis
        by (subst Split.simps) (simp add: Join_Cons Split_not_Nil)
    next
      case False
      obtain seg rest where sg: "Split (tl s) old = seg # rest"
        using Split_not_Nil [of "tl s" old] by (cases "Split (tl s) old") auto
      from False ne "1.prems" "1.IH"(2) have "Join (Split (tl s) old) old = tl s" by simp
      with sg False ne "1.prems" show ?thesis
        by (subst Split.simps) (simp add: Join_Cons_head)
    qed
  qed
qed

lemma ReplaceAll_Split: "old \<noteq> [] \<Longrightarrow> ReplaceAll s old new = Join (Split s old) new"
proof (induction s old rule: Split.induct)
  case (1 s old)
  show ?case
  proof (cases "s = []")
    case True
    then show ?thesis by (subst Split.simps, subst ReplaceAll.simps) simp
  next
    case ne: False
    show ?thesis
    proof (cases "prefix old s")
      case True
      from True ne "1.prems" "1.IH"(1)
      have "ReplaceAll (drop (length old) s) old new = Join (Split (drop (length old) s) old) new"
        by simp
      with True ne "1.prems" show ?thesis
        by (subst Split.simps, subst ReplaceAll.simps) (simp add: Join_Cons Split_not_Nil)
    next
      case False
      obtain seg rest where sg: "Split (tl s) old = seg # rest"
        using Split_not_Nil [of "tl s" old] by (cases "Split (tl s) old") auto
      from False ne "1.prems" "1.IH"(2) have "ReplaceAll (tl s) old new = Join (Split (tl s) old) new" by simp
      with sg False ne "1.prems" show ?thesis
        by (subst Split.simps, subst ReplaceAll.simps) (simp add: Join_Cons_head)
    qed
  qed
qed

lemma Contains_iff: "Contains s sub \<longleftrightarrow> (\<exists>xs ys. s = xs @ sub @ ys)"
proof (induction s)
  case Nil
  then show ?case by auto
next
  case (Cons c cs)
  show ?case
  proof
    assume "Contains (c # cs) sub"
    then consider "prefix sub (c # cs)" | "Contains cs sub" by auto
    then show "\<exists>xs ys. c # cs = xs @ sub @ ys"
    proof cases
      case 1
      then obtain ys where "c # cs = sub @ ys" by (auto simp: prefix_def)
      then have "c # cs = [] @ sub @ ys" by simp
      then show ?thesis by blast
    next
      case 2
      with Cons.IH obtain xs ys where "cs = xs @ sub @ ys" by blast
      then have "c # cs = (c # xs) @ sub @ ys" by simp
      then show ?thesis by blast
    qed
  next
    assume "\<exists>xs ys. c # cs = xs @ sub @ ys"
    then obtain xs ys where eq: "c # cs = xs @ sub @ ys" by blast
    show "Contains (c # cs) sub"
    proof (cases xs)
      case Nil
      with eq have "prefix sub (c # cs)" by (simp add: prefix_def)
      then show ?thesis by simp
    next
      case (Cons x xs')
      with eq have "cs = xs' @ sub @ ys" by simp
      with Cons.IH have "Contains cs sub" by blast
      then show ?thesis by simp
    qed
  qed
qed

lemma Split_hd_prefix: "prefix (hd (Split s old)) s"
proof (induction s old rule: Split.induct)
  case (1 s old)
  show ?case
  proof (cases "old = [] \<or> s = []")
    case True
    then show ?thesis by (subst Split.simps) auto
  next
    case ne: False
    show ?thesis
    proof (cases "prefix old s")
      case True
      with ne show ?thesis by (subst Split.simps) simp
    next
      case False
      obtain seg rest where sg: "Split (tl s) old = seg # rest"
        using Split_not_Nil [of "tl s" old] by (cases "Split (tl s) old") auto
      from False ne "1.IH"(2) have "prefix (hd (Split (tl s) old)) (tl s)" by simp
      with sg have "prefix seg (tl s)" by simp
      then have "prefix (hd s # seg) s" using ne by (cases s) auto
      with sg False ne show ?thesis by (subst Split.simps) simp
    qed
  qed
qed

lemma Split_free: "old \<noteq> [] \<Longrightarrow> seg \<in> set (Split s old) \<Longrightarrow> \<not> Contains seg old"
proof (induction s old arbitrary: seg rule: Split.induct)
  case (1 s old)
  show ?case
  proof (cases "s = []")
    case True
    with "1.prems" have "seg = []" by (subst (asm) Split.simps) simp
    with "1.prems" show ?thesis by simp
  next
    case ne: False
    show ?thesis
    proof (cases "prefix old s")
      case True
      with ne "1.prems" have "seg = [] \<or> seg \<in> set (Split (drop (length old) s) old)"
        by (subst (asm) Split.simps) simp
      then show ?thesis
      proof
        assume "seg = []"
        with "1.prems" show ?thesis by simp
      next
        assume "seg \<in> set (Split (drop (length old) s) old)"
        with "1.IH"(1) True ne "1.prems" show ?thesis by simp
      qed
    next
      case False
      obtain sg rest where sg: "Split (tl s) old = sg # rest"
        using Split_not_Nil [of "tl s" old] by (cases "Split (tl s) old") auto
      with False ne "1.prems" have "seg = hd s # sg \<or> seg \<in> set rest"
        by (subst (asm) Split.simps) simp
      then show ?thesis
      proof
        assume seg: "seg = hd s # sg"
        have "prefix sg (tl s)" using Split_hd_prefix [of "tl s" old] sg by simp
        then have "prefix (hd s # sg) s" using ne by (cases s) auto
        then have np: "\<not> prefix old (hd s # sg)" using False by (meson prefix_order.trans)
        have "\<not> Contains sg old" using "1.IH"(2) [of sg] False ne "1.prems" sg by simp
        with np seg show ?thesis by simp
      next
        assume "seg \<in> set rest"
        with "1.IH"(2) [of seg] False ne "1.prems" sg show ?thesis by simp
      qed
    qed
  qed
qed

lemma Split_two: "old \<noteq> [] \<Longrightarrow> Contains s old \<Longrightarrow> 2 \<le> length (Split s old)"
proof (induction s old rule: Split.induct)
  case (1 s old)
  from "1.prems" have ne: "s \<noteq> []" by (cases s) auto
  show ?case
  proof (cases "prefix old s")
    case True
    with ne "1.prems" show ?thesis
      using Split_not_Nil [of "drop (length old) s" old]
      by (subst Split.simps) (cases "Split (drop (length old) s) old"; simp)
  next
    case False
    with "1.prems" ne have "Contains (tl s) old" by (cases s) auto
    with "1.IH"(2) False ne "1.prems" have "2 \<le> length (Split (tl s) old)" by simp
    with False ne "1.prems" show ?thesis
      by (subst Split.simps) (auto split: list.split)
  qed
qed

subsection \<open>The placeholder\<close>

text \<open>
  C2. For an input URL that contains the placeholder token the generator returns exactly
  one candidate, the input with every occurrence of the token replaced by the payload as
  it is: the input is cut into pieces at the occurrences of the token, none of the pieces
  contains the token any more, and the candidate is the same pieces with the payload
  between them. Whether the URL has query parameters as well makes no difference.
\<close>

theorem placeholder_single_target:
  assumes "Contains inputURL ''{payload}''"
  shows "\<exists>pieces. GenerateTargetURLs lib inputURL payload = Inr [Join pieces payload]
           \<and> inputURL = Join pieces ''{payload}''
           \<and> 2 \<le> length pieces
           \<and> (\<forall>piece \<in> set pieces. \<not> Contains piece ''{payload}'')"
proof -
  let ?pieces = "Split inputURL ''{payload}''"
  have "GenerateTargetURLs lib inputURL payload = Inr [Join ?pieces payload]"
    using assms by (simp add: GenerateTargetURLs_def ReplaceAll_Split)
  moreover have "inputURL = Join ?pieces ''{payload}''"
    by (simp add: Join_Split)
  moreover have "2 \<le> length ?pieces"
    using assms by (simp add: Split_two)
  moreover have "\<forall>piece \<in> set ?pieces. \<not> Contains piece ''{payload}''"
    using Split_free [of "''{payload}''" _ inputURL] by blast
  ultimately show ?thesis by blast
qed

theorem placeholder_single_target_witness:
  "Contains ''http://x/{payload}/p?a=1&b={payload}'' ''{payload}''
   \<and> (\<exists>pieces. GenerateTargetURLs plain_lib ''http://x/{payload}/p?a=1&b={payload}'' ''rix4uni''
                  = Inr [Join pieces ''rix4uni'']
        \<and> ''http://x/{payload}/p?a=1&b={payload}'' = Join pieces ''{payload}''
        \<and> 2 \<le> length pieces
        \<and> (\<forall>piece \<in> set pieces. \<not> Contains piece ''{payload}''))"
proof -
  have h: "Contains ''http://x/{payload}/p?a=1&b={payload}'' ''{payload}''"
    by simp
  show ?thesis
    using h placeholder_single_target [OF h, of plain_lib "''rix4uni''"] by blast
qed

text \<open>
  C10. For an input URL that contains the placeholder token the generator succeeds with
  exactly one candidate whatever the URL parser would say about the input, so also for a
  malformed URL; an invalid-URL failure therefore only comes from an input without the
  token.
\<close>

theorem placeholder_never_parsed:
  "(Contains inputURL ''{payload}'' \<longrightarrow>
      (\<exists>target. GenerateTargetURLs lib inputURL payload = Inr [target])
      \<and> GenerateTargetURLs lib' inputURL payload = GenerateTargetURLs lib inputURL payload)
   \<and> (GenerateTargetURLs lib otherURL payload = Inl (InvalidURL e) \<longrightarrow>
        \<not> Contains otherURL ''{payload}'')"
  by (auto simp: GenerateTargetURLs_def)

theorem placeholder_never_parsed_witness:
  "Contains ''ht tp://%zz/{payload}'' ''{payload}''
   \<and> Parse failing_lib ''ht tp://%zz/{payload}'' = Inl ''invalid URL escape''
   \<and> GenerateTargetURLs failing_lib ''ht tp://%zz/{payload}'' ''rix4uni''
       = Inr [''ht tp://%zz/rix4uni'']
   \<and> GenerateTargetURLs plain_lib ''ht tp://%zz/{payload}'' ''rix4uni''
       = GenerateTargetURLs failing_lib ''ht tp://%zz/{payload}'' ''rix4uni''
   \<and> GenerateTargetURLs failing_lib ''ht tp://%zz/?a=1'' ''rix4uni''
       = Inl (InvalidURL ''invalid URL escape'')
   \<and> \<not> Contains ''ht tp://%zz/?a=1'' ''{payload}''"
proof -
  have h1: "Contains ''ht tp://%zz/{payload}'' ''{payload}''"
    by simp
  have h2: "GenerateTargetURLs failing_lib ''ht tp://%zz/?a=1'' ''rix4uni''
              = Inl (InvalidURL ''invalid URL escape'')"
    by code_simp
  have h3: "Parse failing_lib ''ht tp://%zz/{payload}'' = Inl ''invalid URL escape''"
    by code_simp
  have h4: "GenerateTargetURLs failing_lib ''ht tp://%zz/{payload}'' ''rix4uni''
              = Inr [''ht tp://%zz/rix4uni'']"
    by code_simp
  show ?thesis
    using h1 h2 h3 h4
      placeholder_never_parsed
        [of "''ht tp://%zz/{payload}''" failing_lib "''rix4uni''" plain_lib
            "''ht tp://%zz/?a=1''" "''invalid URL escape''"]
    by simp
qed

subsection \<open>The probe loop\<close>

text \<open>
  The trace of one round of the loop and of the whole loop, the invariant of the three
  result slices, and the trace of the processing of one candidate.
\<close>

lemma network_simps [simp]:
  "network [] = []"
  "network (xs @ ys) = network xs @ network ys"
  "network (Request u # xs) = Request u # network xs"
  "network (Navigation u # xs) = Navigation u # network xs"
  "network (Stdout t # xs) = network xs"
  "network (StdoutJSON j # xs) = network xs"
  by (simp_all add: network_def is_network_def)

lemma printed_json_simps [simp]:
  "printed_json [] = []"
  "printed_json (xs @ ys) = printed_json xs @ printed_json ys"
  "printed_json (Request u # xs) = printed_json xs"
  "printed_json (Navigation u # xs) = printed_json xs"
  "printed_json (Stdout t # xs) = printed_json xs"
  "printed_json (StdoutJSON j # xs) = j # printed_json xs"
  by (simp_all add: printed_json_def)

lemma Print_simps [simp]:
  "trace (Print text st) = trace st @ [Stdout text]"
  "world (Print text st) = world st"
  by (simp_all add: Print_def)

lemma fetch_simps:
  "fst (fetch s url st) = fst (client s (UserAgent (opts s)) url (world st))"
  "world (snd (fetch s url st)) = snd (client s (UserAgent (opts s)) url (world st))"
  "trace (snd (fetch s url st)) = trace st @ [Request url]"
  by (simp_all add: fetch_def split: prod.split)

lemma GetDOM_simps:
  "fst (GetDOM s url st) = fst (domScanner s url (world st))"
  "world (snd (GetDOM s url st)) = snd (domScanner s url (world st))"
  "trace (snd (GetDOM s url st)) = trace st @ [Navigation url]"
  by (simp_all add: GetDOM_def split: prod.split)

lemma probe_cases:
  assumes "probe lib s inputURL inDOM char (res, st) = (res', st')"
  obtains (skipped) "res' = res" "st' = st"
      "\<forall>testURL others. GenerateTargetURLs (runtime lib s (world st)) inputURL (''rix4uni'' @ char)
          \<noteq> Inr (testURL # others)"
  | (failed) testURL others err evs where
      "GenerateTargetURLs (runtime lib s (world st)) inputURL (''rix4uni'' @ char)
         = Inr (testURL # others)"
      "fst (answer s inDOM testURL (world st)) = Inl err" "res' = res"
      "world st' = snd (answer s inDOM testURL (world st))"
      "trace st' = trace st @ evs" "network evs = [channel inDOM testURL]" "printed_json evs = []"
  | (classified) testURL others testBody evs where
      "GenerateTargetURLs (runtime lib s (world st)) inputURL (''rix4uni'' @ char)
         = Inr (testURL # others)"
      "fst (answer s inDOM testURL (world st)) = Inr testBody"
      "world st' = snd (answer s inDOM testURL (world st))"
      "trace st' = trace st @ evs" "network evs = [channel inDOM testURL]" "printed_json evs = []"
      "res' = (case classify testBody ''rix4uni'' char of
                 ALLOWED \<Rightarrow> res\<lparr>allowed := allowed res @ [char]\<rparr>
               | BLOCKED \<Rightarrow> res\<lparr>blocked := blocked res @ [char]\<rparr>
               | CONVERTED \<Rightarrow>
                   (case conversions char of
                      Some conv \<Rightarrow> res\<lparr>converted := converted res @ [Sprintf_conv char conv]\<rparr>
                    | None \<Rightarrow> res))"
proof (cases "GenerateTargetURLs (runtime lib s (world st)) inputURL (''rix4uni'' @ char)")
  case (Inl e)
  with assms have "res' = res" "st' = st"
    by (simp_all add: probe_def)
  with Inl show ?thesis by (intro skipped) simp_all
next
  case (Inr ts)
  show ?thesis
  proof (cases ts)
    case Nil
    with Inr assms have "res' = res" "st' = st"
      by (simp_all add: probe_def)
    with Inr Nil show ?thesis by (intro skipped) simp_all
  next
    case (Cons testURL others)
    define st1 where "st1 = (if Verbose (opts s) \<and> \<not> JSONOutput (opts s) then
                          (if NoColor (opts s) then Print (''CHECKING: '' @ testURL @ LF) st
                           else Print (ESC @ ''[95mCHECKING: '' @ testURL @ ESC @ ''[0m'' @ LF) st)
                        else st)"
    have w1: "world st1 = world st" by (simp add: st1_def)
    obtain pre where t1: "trace st1 = trace st @ pre" "network pre = []" "printed_json pre = []"
      by (cases "Verbose (opts s) \<and> \<not> JSONOutput (opts s)"; cases "NoColor (opts s)") (auto simp: st1_def)
    define r where "r = (if inDOM then GetDOM s testURL st1 else fetch s testURL st1)"
    have r1: "fst r = fst (answer s inDOM testURL (world st))"
      and r2: "world (snd r) = snd (answer s inDOM testURL (world st))"
      and r3: "trace (snd r) = trace st @ pre @ [channel inDOM testURL]"
      by (simp_all add: r_def answer_def channel_def fetch_simps GetDOM_simps w1 t1)
    have gen: "GenerateTargetURLs (runtime lib s (world st)) inputURL (''rix4uni'' @ char)
                 = Inr (testURL # others)"
      using Inr Cons by simp
    have net: "network (pre @ [channel inDOM testURL]) = [channel inDOM testURL]"
      "printed_json (pre @ [channel inDOM testURL]) = []"
      using t1 by (simp_all add: channel_def)
    have "probe lib s inputURL inDOM char (res, st) =
        (case r of (Inl err, st2) \<Rightarrow> (res, st2)
                | (Inr testBody, st2) \<Rightarrow>
                    if Contains testBody (''rix4uni'' @ char)
                    then (res\<lparr>allowed := allowed res @ [char]\<rparr>, st2)
                    else (case conversions char of
                            Some conv \<Rightarrow>
                              if Contains testBody (''rix4uni'' @ conv)
                              then (res\<lparr>converted := converted res @ [Sprintf_conv char conv]\<rparr>, st2)
                              else (res\<lparr>blocked := blocked res @ [char]\<rparr>, st2)
                          | None \<Rightarrow> (res\<lparr>blocked := blocked res @ [char]\<rparr>, st2)))"
      unfolding probe_def r_def st1_def Let_def using Inr Cons
      by (simp only: prod.case sum.case list.case)
    with assms have step: "(res', st') =
        (case r of (Inl err, st2) \<Rightarrow> (res, st2)
                | (Inr testBody, st2) \<Rightarrow>
                    if Contains testBody (''rix4uni'' @ char)
                    then (res\<lparr>allowed := allowed res @ [char]\<rparr>, st2)
                    else (case conversions char of
                            Some conv \<Rightarrow>
                              if Contains testBody (''rix4uni'' @ conv)
                              then (res\<lparr>converted := converted res @ [Sprintf_conv char conv]\<rparr>, st2)
                              else (res\<lparr>blocked := blocked res @ [char]\<rparr>, st2)
                          | None \<Rightarrow> (res\<lparr>blocked := blocked res @ [char]\<rparr>, st2)))"
      by simp
    show ?thesis
    proof (cases "fst r")
      case (Inl err)
      with step have "res' = res" "st' = snd r" by (auto split: prod.splits)
      with Inl r1 r2 r3 gen net show ?thesis
        by (intro failed [of testURL others err "pre @ [channel inDOM testURL]"]) simp_all
    next
      case (Inr testBody)
      with step have "st' = snd r"
         and "res' = (case classify testBody ''rix4uni'' char of
                 ALLOWED \<Rightarrow> res\<lparr>allowed := allowed res @ [char]\<rparr>
               | BLOCKED \<Rightarrow> res\<lparr>blocked := blocked res @ [char]\<rparr>
               | CONVERTED \<Rightarrow>
                   (case conversions char of
                      Some conv \<Rightarrow> res\<lparr>converted := converted res @ [Sprintf_conv char conv]\<rparr>
                    | None \<Rightarrow> res))"
        by (auto simp: classify_def split: prod.splits option.splits if_splits)
      with Inr r1 r2 r3 gen net show ?thesis
        by (intro classified [of testURL others testBody "pre @ [channel inDOM testURL]"]) simp_all
    qed
  qed
qed

lemma probes_Nil [simp]: "probes lib s inputURL inDOM [] acc = acc"
  by (simp add: probes_def)

lemma probes_Cons [simp]:
  "probes lib s inputURL inDOM (char # chars) acc =
     probes lib s inputURL inDOM chars (probe lib s inputURL inDOM char acc)"
  by (simp add: probes_def)

lemma probes_append:
  "probes lib s inputURL inDOM (pre @ post) acc =
     probes lib s inputURL inDOM post (probes lib s inputURL inDOM pre acc)"
  by (simp add: probes_def)

lemma probe_urls_answered:
  "GenerateTargetURLs (runtime lib s w) inputURL (''rix4uni'' @ char) = Inr (testURL # others) \<Longrightarrow>
   probe_urls lib s inputURL inDOM (char # chars) w
     = testURL # probe_urls lib s inputURL inDOM chars (snd (answer s inDOM testURL w))"
  by simp

lemma probe_urls_skipped:
  "\<forall>testURL others. GenerateTargetURLs (runtime lib s w) inputURL (''rix4uni'' @ char)
      \<noteq> Inr (testURL # others) \<Longrightarrow>
   probe_urls lib s inputURL inDOM (char # chars) w = probe_urls lib s inputURL inDOM chars w"
  by (simp split: sum.split list.split)

lemma probes_trace:
  assumes "probes lib s inputURL inDOM chars (res, st) = (res', st')"
  shows "\<exists>evs. trace st' = trace st @ evs
           \<and> network evs = map (channel inDOM) (probe_urls lib s inputURL inDOM chars (world st))
           \<and> printed_json evs = []"
  using assms
proof (induction chars arbitrary: res st)
  case Nil
  then show ?case by simp
next
  case (Cons char chars)
  obtain res1 st1 where step: "probe lib s inputURL inDOM char (res, st) = (res1, st1)"
    by (cases "probe lib s inputURL inDOM char (res, st)")
  with Cons.prems have rest: "probes lib s inputURL inDOM chars (res1, st1) = (res', st')"
    by simp
  from Cons.IH [OF rest] obtain evs2 where evs2: "trace st' = trace st1 @ evs2"
    "network evs2 = map (channel inDOM) (probe_urls lib s inputURL inDOM chars (world st1))"
    "printed_json evs2 = []"
    by blast
  have "\<exists>evs1. trace st1 = trace st @ evs1
          \<and> network evs1 @ map (channel inDOM) (probe_urls lib s inputURL inDOM chars (world st1))
              = map (channel inDOM) (probe_urls lib s inputURL inDOM (char # chars) (world st))
          \<and> printed_json evs1 = []"
    using step
  proof (cases rule: probe_cases)
    case skipped
    then show ?thesis
      using probe_urls_skipped [of lib s "world st" inputURL char inDOM chars] by simp
  next
    case (failed testURL others err evs)
    then show ?thesis
      using probe_urls_answered [of lib s "world st" inputURL char testURL others inDOM chars]
      by simp
  next
    case (classified testURL others testBody evs)
    then show ?thesis
      using probe_urls_answered [of lib s "world st" inputURL char testURL others inDOM chars]
      by simp
  qed
  then obtain evs1 where evs1: "trace st1 = trace st @ evs1"
    "network evs1 @ map (channel inDOM) (probe_urls lib s inputURL inDOM chars (world st1))
       = map (channel inDOM) (probe_urls lib s inputURL inDOM (char # chars) (world st))"
    "printed_json evs1 = []"
    by blast
  have "trace st' = trace st @ (evs1 @ evs2)"
    using evs1 evs2 by simp
  moreover have "network (evs1 @ evs2)
                   = map (channel inDOM) (probe_urls lib s inputURL inDOM (char # chars) (world st))"
    using evs1 evs2 by simp
  moreover have "printed_json (evs1 @ evs2) = []"
    using evs1 evs2 by simp
  ultimately show ?case by blast
qed

lemma Sprintf_conv_inj:
  "length c = 1 \<Longrightarrow> length c' = 1 \<Longrightarrow> Sprintf_conv c conv = Sprintf_conv c' conv' \<Longrightarrow> c = c'"
  by (cases c; cases c') (auto simp: Sprintf_conv_def)

lemma sorted_out_step:
  assumes inv: "sorted_out S res" and new: "char \<notin> S" and len: "length char = 1"
      and step: "probe lib s inputURL inDOM char (res, st) = (res', st')"
  shows "sorted_out (insert char S) res'"
proof -
  from inv have fin: "finite S" and one: "\<forall>c \<in> S. length c = 1"
    and a: "set (allowed res) \<subseteq> S" and b: "set (blocked res) \<subseteq> S"
    and c: "\<forall>x \<in> set (converted res). \<exists>c \<in> S. \<exists>conv. x = Sprintf_conv c conv"
    and ab: "set (allowed res) \<inter> set (blocked res) = {}"
    and cab: "\<forall>c conv. length c = 1 \<and> Sprintf_conv c conv \<in> set (converted res)
            \<longrightarrow> c \<notin> set (allowed res) \<and> c \<notin> set (blocked res)"
    and n: "length (allowed res) + length (blocked res) + length (converted res) \<le> card S"
    by (simp_all add: sorted_out_def)
  have card: "card (insert char S) = Suc (card S)"
    using fin new by simp
  have fresh: "char \<notin> set (allowed res)" "char \<notin> set (blocked res)"
    using a b new by auto
  have fresh_conv: "Sprintf_conv char conv \<notin> set (converted res)" for conv
  proof
    assume "Sprintf_conv char conv \<in> set (converted res)"
    with c obtain c' conv' where "c' \<in> S" "Sprintf_conv char conv = Sprintf_conv c' conv'"
      by blast
    with one len new show False
      using Sprintf_conv_inj [of char c' conv conv'] by auto
  qed
  have same: "sorted_out (insert char S) res"
    unfolding sorted_out_def using fin one len a b c ab cab n card by auto
  consider "res' = res" | "res' = res\<lparr>allowed := allowed res @ [char]\<rparr>"
    | "res' = res\<lparr>blocked := blocked res @ [char]\<rparr>"
    | conv where "res' = res\<lparr>converted := converted res @ [Sprintf_conv char conv]\<rparr>"
    using step by (cases rule: probe_cases) (auto split: verdict.splits option.splits)
  then show ?thesis
  proof cases
    case 1
    with same show ?thesis by simp
  next
    case 2
    have "\<forall>c conv. length c = 1 \<and> Sprintf_conv c conv \<in> set (converted res)
            \<longrightarrow> c \<noteq> char"
      using fresh_conv by auto
    with 2 show ?thesis
      unfolding sorted_out_def using fin one len a b c ab cab n card fresh by auto
  next
    case 3
    have "\<forall>c conv. length c = 1 \<and> Sprintf_conv c conv \<in> set (converted res)
            \<longrightarrow> c \<noteq> char"
      using fresh_conv by auto
    with 3 show ?thesis
      unfolding sorted_out_def using fin one len a b c ab cab n card fresh by auto
  next
    case 4
    have "\<forall>c conv'. length c = 1 \<and> Sprintf_conv c conv' = Sprintf_conv char conv \<longrightarrow> c = char"
      using Sprintf_conv_inj len by blast
    with 4 show ?thesis
      unfolding sorted_out_def using fin one len a b c ab cab n card fresh by auto
  qed
qed

lemma sorted_out_probes:
  assumes "sorted_out S res" and "distinct chars" and "set chars \<inter> S = {}"
      and "\<forall>c \<in> set chars. length c = 1"
      and "probes lib s inputURL inDOM chars (res, st) = (res', st')"
  shows "sorted_out (S \<union> set chars) res'"
  using assms
proof (induction chars arbitrary: S res st)
  case Nil
  then show ?case by simp
next
  case (Cons char chars)
  obtain res1 st1 where step: "probe lib s inputURL inDOM char (res, st) = (res1, st1)"
    by (cases "probe lib s inputURL inDOM char (res, st)")
  with Cons.prems have rest: "probes lib s inputURL inDOM chars (res1, st1) = (res', st')"
    by simp
  have "sorted_out (insert char S) res1"
    using sorted_out_step [OF Cons.prems(1) _ _ step] Cons.prems by auto
  from Cons.IH [OF this _ _ _ rest] Cons.prems
  have "sorted_out (insert char S \<union> set chars) res'" by auto
  then show ?case by simp
qed

lemma sorted_out_disjoint:
  assumes "sorted_out S res"
  shows "set (allowed res) \<inter> set (converted res) = {}"
    and "set (blocked res) \<inter> set (converted res) = {}"
    and "card (set (allowed res) \<union> set (blocked res) \<union> set (converted res)) \<le> card S"
proof -
  have long: "length (Sprintf_conv c conv) \<noteq> 1" for c conv
    by (simp add: Sprintf_conv_def)
  from assms have one: "\<forall>c \<in> S. length c = 1"
    and a: "set (allowed res) \<subseteq> S" and b: "set (blocked res) \<subseteq> S"
    and c: "\<forall>x \<in> set (converted res). \<exists>c \<in> S. \<exists>conv. x = Sprintf_conv c conv"
    and n: "length (allowed res) + length (blocked res) + length (converted res) \<le> card S"
    by (simp_all add: sorted_out_def)
  show "set (allowed res) \<inter> set (converted res) = {}"
    using one a c long by fastforce
  show "set (blocked res) \<inter> set (converted res) = {}"
    using one b c long by fastforce
  have "card (set (allowed res) \<union> set (blocked res) \<union> set (converted res))
          \<le> card (set (allowed res)) + card (set (blocked res)) + card (set (converted res))"
    by (meson card_Un_le le_trans add_le_mono1)
  also have "\<dots> \<le> length (allowed res) + length (blocked res) + length (converted res)"
    by (meson card_length add_le_mono)
  finally show "card (set (allowed res) \<union> set (blocked res) \<union> set (converted res)) \<le> card S"
    using n by simp
qed

lemma specialChars_facts:
  "distinct specialChars" "\<forall>c \<in> set specialChars. length c = 1" "length specialChars = 12"
  by (simp_all add: specialChars_def)


lemma map_json_count:
  "map_json (Some [(''allowed'', a), (''blocked'', b), (''converted'', c)])
     = JObject [(''allowed'', JNumber a), (''blocked'', JNumber b), (''converted'', JNumber c)]"
  by (simp add: map_json_def)

lemma checkSpecialChars_run:
  assumes "checkSpecialChars lib s inputURL baseURL inDOM output st = (output', st')"
  obtains res st1 evs where
    "probes lib s inputURL inDOM specialChars (\<lparr>allowed = [], blocked = [], converted = []\<rparr>, st)
       = (res, st1)"
    "output' = output\<lparr>Allowed := Some (allowed res), Blocked := Some (blocked res),
                        Converted := Some (converted res),
                        Count := Some [(''allowed'', int (length (allowed res))),
                                       (''blocked'', int (length (blocked res))),
                                       (''converted'', int (length (converted res)))]\<rparr>"
    "trace st' = trace st1 @ evs" "network evs = []" "printed_json evs = []"
    "world st' = world st1"
proof -
  obtain res st1 where run:
    "probes lib s inputURL inDOM specialChars (\<lparr>allowed = [], blocked = [], converted = []\<rparr>, st)
       = (res, st1)"
    by (cases "probes lib s inputURL inDOM specialChars
                 (\<lparr>allowed = [], blocked = [], converted = []\<rparr>, st)")
  with assms have out: "output' = output\<lparr>Allowed := Some (allowed res), Blocked := Some (blocked res),
                        Converted := Some (converted res),
                        Count := Some [(''allowed'', int (length (allowed res))),
                                       (''blocked'', int (length (blocked res))),
                                       (''converted'', int (length (converted res)))]\<rparr>"
    by (auto simp: checkSpecialChars_def Let_def split: if_splits)
  from assms run have "\<exists>evs. trace st' = trace st1 @ evs \<and> network evs = [] \<and> printed_json evs = []"
    by (auto simp: checkSpecialChars_def Let_def split: if_splits)
  then obtain evs where "trace st' = trace st1 @ evs" "network evs = []" "printed_json evs = []"
    by blast
  moreover from assms run have "world st' = world st1"
    by (auto simp: checkSpecialChars_def Let_def split: if_splits)
  ultimately show ?thesis using run out that by blast
qed

lemma printJSON_trace:
  "\<exists>evs. trace (printJSON s output st) = trace st @ evs \<and> network evs = []
     \<and> printed_json evs =
         (if JSONOutput (opts s)
          then [JObject [(''processing'', JString (Processing output)),
                         (''baseurl'', JString (BaseURL output)),
                         (''reflected'', JBool (Reflected output)),
                         (''allowed'', slice_json (Some (case Allowed output of None \<Rightarrow> [] | Some xs \<Rightarrow> xs))),
                         (''blocked'', slice_json (Some (case Blocked output of None \<Rightarrow> [] | Some xs \<Rightarrow> xs))),
                         (''converted'', slice_json (Some (case Converted output of None \<Rightarrow> [] | Some xs \<Rightarrow> xs))),
                         (''count'', map_json (Some (case Count output of
                                        None \<Rightarrow> [(''allowed'', 0), (''blocked'', 0), (''converted'', 0)]
                                      | Some m \<Rightarrow> m)))]]
          else [])"
  by (cases "Allowed output"; cases "Blocked output"; cases "Converted output"; cases "Count output")
     (simp_all add: printJSON_def Marshal_def Let_def)

lemma printReflected_trace:
  "\<exists>evs. trace (printReflected s r st) = trace st @ evs \<and> network evs = [] \<and> printed_json evs = []"
  "world (printReflected s r st) = world st"
  by (auto simp: printReflected_def)

lemma printJSON_empty:
  assumes "Allowed output = None" "Blocked output = None" "Converted output = None"
    "Count output = None"
  shows "\<exists>evs. trace (printJSON s output st) = trace st @ evs \<and> network evs = []
     \<and> (\<forall>j \<in> set (printed_json evs).
           j = full_record (Processing output) (BaseURL output) (Reflected output) [] [] [])"
  using printJSON_trace [of s "output" st] assms
  by (auto simp: full_record_def slice_json_def map_json_count)

lemma printJSON_full:
  assumes "Allowed output = Some A" "Blocked output = Some B" "Converted output = Some C"
    "Count output = Some [(''allowed'', int (length A)), (''blocked'', int (length B)),
                          (''converted'', int (length C))]"
  shows "\<exists>evs. trace (printJSON s output st) = trace st @ evs \<and> network evs = []
     \<and> (\<forall>j \<in> set (printed_json evs).
           j = full_record (Processing output) (BaseURL output) (Reflected output) A B C)"
  using printJSON_trace [of s "output" st] assms
  by (auto simp: full_record_def slice_json_def map_json_count)

lemma report_trace:
  fixes st3 :: "'w state"
  assumes out: "output = zero_JSONOutput\<lparr>Processing := inputURL, BaseURL := baseURL\<rparr>"
  shows "\<exists>evs. trace (if Contains body ''rix4uni'' then
                    let output1 = output\<lparr>Reflected := True\<rparr>;
                        st4 = printReflected s True st3
                    in if SkipSpecialChar (opts s) then printJSON s output1 st4
                       else (case checkSpecialChars lib s inputURL baseURL reflectedInDOM output1 st4 of
                               (output2, st5) \<Rightarrow> printJSON s output2 st5)
                  else
                    printJSON s (output\<lparr>Reflected := False\<rparr>) (printReflected s False st3))
            = trace st3 @ evs
         \<and> network evs = (if Contains body ''rix4uni''
                          then map (channel reflectedInDOM) (probed lib s inputURL reflectedInDOM (world st3))
                          else [])
         \<and> (\<forall>j \<in> set (printed_json evs). \<exists>r A B C. j = full_record inputURL baseURL r A B C)"
proof (cases "Contains body ''rix4uni''")
  case False
  let ?o = "output\<lparr>Reflected := False\<rparr>"
  obtain e1 where e1: "trace (printReflected s False st3) = trace st3 @ e1" "network e1 = []"
    "printed_json e1 = []"
    using printReflected_trace(1) [of s False st3] by blast
  have "\<exists>evs. trace (printJSON s ?o (printReflected s False st3))
                 = trace (printReflected s False st3) @ evs \<and> network evs = []
     \<and> (\<forall>j \<in> set (printed_json evs).
           j = full_record (Processing ?o) (BaseURL ?o) (Reflected ?o) [] [] [])"
    by (rule printJSON_empty) (simp_all add: out zero_JSONOutput_def)
  then obtain e2 where e2: "trace (printJSON s ?o (printReflected s False st3))
                 = trace (printReflected s False st3) @ e2" "network e2 = []"
     "\<forall>j \<in> set (printed_json e2). j = full_record inputURL baseURL False [] [] []"
    by (auto simp: out)
  have "trace (printJSON s ?o (printReflected s False st3)) = trace st3 @ (e1 @ e2)"
    using e1 e2 by simp
  moreover have "network (e1 @ e2) = []" using e1 e2 by simp
  moreover have "\<forall>j \<in> set (printed_json (e1 @ e2)). \<exists>r A B C. j = full_record inputURL baseURL r A B C"
    using e1 e2 by (simp del: ex_simps) blast
  ultimately show ?thesis using False by (simp only: if_False) blast
next
  case True
  let ?o = "output\<lparr>Reflected := True\<rparr>"
  let ?st4 = "printReflected s True st3"
  obtain e1 where e1: "trace ?st4 = trace st3 @ e1" "network e1 = []" "printed_json e1 = []"
    using printReflected_trace(1) [of s True st3] by blast
  show ?thesis
  proof (cases "SkipSpecialChar (opts s)")
    case skip: True
    have "\<exists>evs. trace (printJSON s ?o ?st4) = trace ?st4 @ evs \<and> network evs = []
       \<and> (\<forall>j \<in> set (printed_json evs).
             j = full_record (Processing ?o) (BaseURL ?o) (Reflected ?o) [] [] [])"
      by (rule printJSON_empty) (simp_all add: out zero_JSONOutput_def)
    then obtain e2 where e2: "trace (printJSON s ?o ?st4) = trace ?st4 @ e2" "network e2 = []"
       "\<forall>j \<in> set (printed_json e2). j = full_record inputURL baseURL True [] [] []"
      by (auto simp: out)
    have "trace (printJSON s ?o ?st4) = trace st3 @ (e1 @ e2)"
      using e1 e2 by simp
    moreover have "network (e1 @ e2) = []" using e1 e2 by simp
    moreover have "\<forall>j \<in> set (printed_json (e1 @ e2)). \<exists>r A B C. j = full_record inputURL baseURL r A B C"
      using e1 e2 by (simp del: ex_simps) blast
    ultimately show ?thesis using True skip by (simp only: if_True Let_def probed_def list.map) blast
  next
    case noskip: False
    obtain output2 st5 where chk:
      "checkSpecialChars lib s inputURL baseURL reflectedInDOM ?o ?st4 = (output2, st5)"
      by (cases "checkSpecialChars lib s inputURL baseURL reflectedInDOM ?o ?st4")
    from chk obtain res st4' e3 where run:
      "probes lib s inputURL reflectedInDOM specialChars
         (\<lparr>allowed = [], blocked = [], converted = []\<rparr>, ?st4) = (res, st4')"
      and o2: "output2 = ?o\<lparr>Allowed := Some (allowed res), Blocked := Some (blocked res),
                        Converted := Some (converted res),
                        Count := Some [(''allowed'', int (length (allowed res))),
                                       (''blocked'', int (length (blocked res))),
                                       (''converted'', int (length (converted res)))]\<rparr>"
      and e3: "trace st5 = trace st4' @ e3" "network e3 = []" "printed_json e3 = []"
      by (rule checkSpecialChars_run)
    from probes_trace [OF run] obtain e2 where e2: "trace st4' = trace ?st4 @ e2"
      "network e2 = map (channel reflectedInDOM)
                      (probe_urls lib s inputURL reflectedInDOM specialChars (world ?st4))"
      "printed_json e2 = []"
      by blast
    have "\<exists>evs. trace (printJSON s output2 st5) = trace st5 @ evs \<and> network evs = []
       \<and> (\<forall>j \<in> set (printed_json evs).
             j = full_record (Processing output2) (BaseURL output2) (Reflected output2)
                   (allowed res) (blocked res) (converted res))"
      by (rule printJSON_full) (simp_all add: o2)
    then obtain e4 where e4: "trace (printJSON s output2 st5) = trace st5 @ e4" "network e4 = []"
       "\<forall>j \<in> set (printed_json e4).
          j = full_record inputURL baseURL True (allowed res) (blocked res) (converted res)"
      by (auto simp: o2 out)
    have "trace (printJSON s output2 st5) = trace st3 @ (e1 @ e2 @ e3 @ e4)"
      using e1 e2 e3 e4 by simp
    moreover have "network (e1 @ e2 @ e3 @ e4)
                     = map (channel reflectedInDOM) (probed lib s inputURL reflectedInDOM (world st3))"
      using e1 e2 e3 e4 noskip by (simp add: probed_def printReflected_trace(2))
    moreover have "\<forall>j \<in> set (printed_json (e1 @ e2 @ e3 @ e4)).
                     \<exists>r A B C. j = full_record inputURL baseURL r A B C"
      using e1 e2 e3 e4 by (simp del: ex_simps) blast
    ultimately show ?thesis using True noskip chk
      by (simp only: if_True if_False Let_def prod.case) blast
  qed
qed

lemma processBaseURL_trace:
  fixes st :: "'w state"
  shows "\<exists>evs. trace (processBaseURL lib s inputURL baseURL st) = trace st @ evs
    \<and> network evs =
        (case fst (client s (UserAgent (opts s)) baseURL (world st)) of
           Inl err \<Rightarrow> [Request baseURL]
         | Inr body0 \<Rightarrow>
             if Contains body0 ''rix4uni''
             then Request baseURL
                  # map Request (probed lib s inputURL False
                                   (snd (client s (UserAgent (opts s)) baseURL (world st))))
             else (case fst (domScanner s baseURL
                               (snd (client s (UserAgent (opts s)) baseURL (world st)))) of
                     Inl err \<Rightarrow> [Request baseURL, Navigation baseURL]
                   | Inr body1 \<Rightarrow>
                       Request baseURL # Navigation baseURL
                       # (if Contains body1 ''rix4uni''
                          then map Navigation
                                 (probed lib s inputURL True
                                    (snd (domScanner s baseURL
                                            (snd (client s (UserAgent (opts s)) baseURL
                                                    (world st))))))
                          else [])))
    \<and> (\<forall>j \<in> set (printed_json evs). \<exists>r A B C. j = full_record inputURL baseURL r A B C)"
proof -
  define out0 where "out0 = zero_JSONOutput\<lparr>Processing := inputURL, BaseURL := baseURL\<rparr>"
  define st1 where "st1 = (if \<not> JSONOutput (opts s) then
                   (if NoColor (opts s) then Print (''BASEURL: '' @ baseURL @ LF) st
                    else Print (ESC @ ''[94mBASEURL: '' @ baseURL @ ESC @ ''[0m'' @ LF) st)
                 else st)"
  define w1 where "w1 = snd (client s (UserAgent (opts s)) baseURL (world st))"
  have w: "world st1 = world st" by (simp add: st1_def)
  obtain e0 where e0: "trace st1 = trace st @ e0" "network e0 = []" "printed_json e0 = []"
    by (cases "JSONOutput (opts s)"; cases "NoColor (opts s)") (auto simp: st1_def)
  obtain r0 st2 where f: "fetch s baseURL st1 = (r0, st2)"
    by (cases "fetch s baseURL st1")
  have r0: "r0 = fst (client s (UserAgent (opts s)) baseURL (world st))"
    and w2: "world st2 = w1" and t2: "trace st2 = trace st @ e0 @ [Request baseURL]"
    using fetch_simps [of s baseURL st1] f w e0 by (simp_all add: w1_def)
  have unfold: "processBaseURL lib s inputURL baseURL st =
     (case (r0, st2) of
           (Inl err, st2) \<Rightarrow>
             if Verbose (opts s) then Print (''Error fetching base URL: '' @ err @ LF) st2 else st2
         | (Inr body0, st2) \<Rightarrow>
             (case (if \<not> Contains body0 ''rix4uni'' then
                      (case GetDOM s baseURL st2 of
                         (Inl err, st3) \<Rightarrow> Inl (err, st3)
                       | (Inr body1, st3) \<Rightarrow> Inr (body1, Contains body1 ''rix4uni'', st3))
                    else Inr (body0, False, st2)) of
                Inl (err, st3) \<Rightarrow>
                  if Verbose (opts s) then Print (''Error fetching DOM: '' @ err @ LF) st3 else st3
              | Inr (body, reflectedInDOM, st3) \<Rightarrow>
                  if Contains body ''rix4uni'' then
                    let output1 = out0\<lparr>Reflected := True\<rparr>;
                        st4 = printReflected s True st3
                    in if SkipSpecialChar (opts s) then printJSON s output1 st4
                       else (case checkSpecialChars lib s inputURL baseURL reflectedInDOM output1 st4 of
                               (output2, st5) \<Rightarrow> printJSON s output2 st5)
                  else
                    printJSON s (out0\<lparr>Reflected := False\<rparr>) (printReflected s False st3)))"
    unfolding processBaseURL_def out0_def [symmetric] st1_def [symmetric] Let_def f ..
  show ?thesis
  proof (cases r0)
    case (Inl err)
    have "\<exists>e. trace (processBaseURL lib s inputURL baseURL st) = trace st2 @ e \<and> network e = []
            \<and> printed_json e = []"
      using Inl by (cases "Verbose (opts s)") (simp_all add: unfold)
    then obtain e where e: "trace (processBaseURL lib s inputURL baseURL st) = trace st2 @ e"
      "network e = []" "printed_json e = []" by blast
    have "trace (processBaseURL lib s inputURL baseURL st) = trace st @ (e0 @ [Request baseURL] @ e)"
      using e t2 by simp
    moreover have "network (e0 @ [Request baseURL] @ e) = [Request baseURL]"
      using e e0 by simp
    moreover have "printed_json (e0 @ [Request baseURL] @ e) = []"
      using e e0 by simp
    ultimately show ?thesis using Inl r0 [symmetric]
      by (simp only: sum.case) (metis empty_iff empty_set)
  next
    case (Inr body0)
    show ?thesis
    proof (cases "Contains body0 ''rix4uni''")
      case True
      from report_trace [OF out0_def, of body0 s st2 lib False]
      obtain e where e: "trace (processBaseURL lib s inputURL baseURL st) = trace st2 @ e"
        "network e = map Request (probed lib s inputURL False w1)"
        "\<forall>j \<in> set (printed_json e). \<exists>r A B C. j = full_record inputURL baseURL r A B C"
        using Inr True w2 by (auto simp: unfold channel_def simp del: ex_simps)
      have "trace (processBaseURL lib s inputURL baseURL st) = trace st @ (e0 @ [Request baseURL] @ e)"
        using e t2 by simp
      moreover have "network (e0 @ [Request baseURL] @ e)
                       = Request baseURL # map Request (probed lib s inputURL False w1)"
        using e e0 by simp
      moreover have "\<forall>j \<in> set (printed_json (e0 @ [Request baseURL] @ e)).
                       \<exists>r A B C. j = full_record inputURL baseURL r A B C"
        using e e0 by (simp del: ex_simps)
      ultimately show ?thesis using Inr True r0 [symmetric]
        unfolding w1_def
        by (simp only: sum.case if_True) blast
    next
      case False
      obtain r1 st3 where g: "GetDOM s baseURL st2 = (r1, st3)"
        by (cases "GetDOM s baseURL st2")
      have r1: "r1 = fst (domScanner s baseURL w1)"
        and t3: "trace st3 = trace st @ e0 @ [Request baseURL, Navigation baseURL]"
        and w3: "world st3 = snd (domScanner s baseURL w1)"
        using GetDOM_simps [of s baseURL st2] g w2 t2 by simp_all
      show ?thesis
      proof (cases r1)
        case (Inl err)
        have "\<exists>e. trace (processBaseURL lib s inputURL baseURL st) = trace st3 @ e \<and> network e = []
                \<and> printed_json e = []"
          using Inl Inr False g by (cases "Verbose (opts s)") (simp_all add: unfold)
        then obtain e where e: "trace (processBaseURL lib s inputURL baseURL st) = trace st3 @ e"
          "network e = []" "printed_json e = []" by blast
        have "trace (processBaseURL lib s inputURL baseURL st)
                = trace st @ (e0 @ [Request baseURL, Navigation baseURL] @ e)"
          using e t3 by simp
        moreover have "network (e0 @ [Request baseURL, Navigation baseURL] @ e)
                         = [Request baseURL, Navigation baseURL]"
          using e e0 by simp
        moreover have "printed_json (e0 @ [Request baseURL, Navigation baseURL] @ e) = []"
          using e e0 by simp
        ultimately show ?thesis using Inl \<open>r0 = Inr body0\<close> False r0 [symmetric] r1 [symmetric]
          unfolding w1_def
          by (simp only: sum.case if_False) (metis empty_iff empty_set)
      next
        case inr1: (Inr body1)
        from report_trace [OF out0_def, of body1 s st3 lib "Contains body1 ''rix4uni''"]
        obtain e where e: "trace (processBaseURL lib s inputURL baseURL st) = trace st3 @ e"
          "network e = (if Contains body1 ''rix4uni''
                        then map Navigation
                               (probed lib s inputURL True (snd (domScanner s baseURL w1)))
                        else [])"
          "\<forall>j \<in> set (printed_json e). \<exists>r A B C. j = full_record inputURL baseURL r A B C"
          using Inr False inr1 g w3 by (auto simp: unfold channel_def simp del: ex_simps)
        have "trace (processBaseURL lib s inputURL baseURL st)
                = trace st @ (e0 @ [Request baseURL, Navigation baseURL] @ e)"
          using e t3 by simp
        moreover have "network (e0 @ [Request baseURL, Navigation baseURL] @ e)
                         = Request baseURL # Navigation baseURL
                           # (if Contains body1 ''rix4uni''
                              then map Navigation
                                     (probed lib s inputURL True (snd (domScanner s baseURL w1)))
                              else [])"
          using e e0 by simp
        moreover have "\<forall>j \<in> set (printed_json (e0 @ [Request baseURL, Navigation baseURL] @ e)).
                         \<exists>r A B C. j = full_record inputURL baseURL r A B C"
          using e e0 by (simp del: ex_simps)
        ultimately show ?thesis using inr1 \<open>r0 = Inr body0\<close> False r0 [symmetric] r1 [symmetric]
          unfolding w1_def
          by (simp only: sum.case if_False) blast
      qed
    qed
  qed
qed

lemma sorted_out_empty: "sorted_out {} \<lparr>allowed = [], blocked = [], converted = []\<rparr>"
  by (simp add: sorted_out_def)

lemma probe_failed:
  assumes gen: "GenerateTargetURLs (runtime lib s (world st)) inputURL (''rix4uni'' @ char)
                  = Inr (testURL # others)"
      and err: "fst (answer s inDOM testURL (world st)) = Inl err"
  shows "\<exists>st2. probe lib s inputURL inDOM char (res, st) = (res, st2)"
proof -
  obtain res' st' where step: "probe lib s inputURL inDOM char (res, st) = (res', st')"
    by (cases "probe lib s inputURL inDOM char (res, st)")
  from step have "res' = res"
    by (cases rule: probe_cases) (use gen err in auto)
  with step show ?thesis by blast
qed

text \<open>
  C4. For a candidate whose marker shows only in the rendered document, every character
  probe is fetched by rendering, and for a candidate whose marker shows in the static
  response every character probe is fetched statically: after the detection the
  requests and renderings of one candidate are those of the probes, all on one channel.
  The URL of each probe is the first candidate of a call of the generator of its own, so
  for a URL with several parameters the probes need not stay with one parameter.
\<close>

theorem probe_channel_locked:
  fixes st :: "'w state"
  assumes first: "client s (UserAgent (opts s)) baseURL (world st) = (Inr body0, w1)"
  shows "\<exists>evs. trace (processBaseURL lib s inputURL baseURL st) = trace st @ evs
     \<and> (Contains body0 ''rix4uni'' \<longrightarrow>
          network evs = Request baseURL # map Request (probed lib s inputURL False w1))
     \<and> (\<forall>body1 w2. \<not> Contains body0 ''rix4uni'' \<and> domScanner s baseURL w1 = (Inr body1, w2)
            \<and> Contains body1 ''rix4uni'' \<longrightarrow>
          network evs = Request baseURL # Navigation baseURL
                        # map Navigation (probed lib s inputURL True w2))"
proof -
  from processBaseURL_trace [of lib s inputURL baseURL st] obtain evs where
    tr: "trace (processBaseURL lib s inputURL baseURL st) = trace st @ evs"
    and net: "network evs =
        (case fst (client s (UserAgent (opts s)) baseURL (world st)) of
           Inl err \<Rightarrow> [Request baseURL]
         | Inr body0 \<Rightarrow>
             if Contains body0 ''rix4uni''
             then Request baseURL
                  # map Request (probed lib s inputURL False
                                   (snd (client s (UserAgent (opts s)) baseURL (world st))))
             else (case fst (domScanner s baseURL
                               (snd (client s (UserAgent (opts s)) baseURL (world st)))) of
                     Inl err \<Rightarrow> [Request baseURL, Navigation baseURL]
                   | Inr body1 \<Rightarrow>
                       Request baseURL # Navigation baseURL
                       # (if Contains body1 ''rix4uni''
                          then map Navigation
                                 (probed lib s inputURL True
                                    (snd (domScanner s baseURL
                                            (snd (client s (UserAgent (opts s)) baseURL
                                                    (world st))))))
                          else [])))"
    by blast
  have static: "network evs = Request baseURL # map Request (probed lib s inputURL False w1)"
    if "Contains body0 ''rix4uni''"
    using net that first by simp
  have rendered: "network evs = Request baseURL # Navigation baseURL
                        # map Navigation (probed lib s inputURL True w2)"
    if "\<not> Contains body0 ''rix4uni''" "domScanner s baseURL w1 = (Inr body1, w2)"
      "Contains body1 ''rix4uni''" for body1 w2
    using net that first by simp
  show ?thesis using tr static rendered by blast
qed

theorem probe_channel_locked_witness:
  "client static_site (UserAgent (opts static_site)) ''http://x/?a=rix4uni&b=2'' (world start)
     = (Inr ''<p>http://x/?a=rix4uni&b=2</p>'', 1)
   \<and> Contains ''<p>http://x/?a=rix4uni&b=2</p>'' ''rix4uni''
   \<and> (\<exists>evs. trace (processBaseURL plain_lib static_site ''http://x/?a=1&b=2''
                       ''http://x/?a=rix4uni&b=2'' start) = trace start @ evs
          \<and> network evs = Request ''http://x/?a=rix4uni&b=2''
                           # map Request (probed plain_lib static_site ''http://x/?a=1&b=2'' False 1))
   \<and> probed plain_lib static_site ''http://x/?a=1&b=2'' False 1
       = [''http://x/?a=1&b=rix4uni%27'', ''http://x/?a=rix4uni%22&b=2'',
          ''http://x/?a=1&b=rix4uni%3C'', ''http://x/?a=rix4uni%3E&b=2'',
          ''http://x/?a=1&b=rix4uni%28'', ''http://x/?a=rix4uni%29&b=2'',
          ''http://x/?a=1&b=rix4uni%60'', ''http://x/?a=rix4uni%7B&b=2'',
          ''http://x/?a=1&b=rix4uni%7D'', ''http://x/?a=rix4uni%2F&b=2'',
          ''http://x/?a=1&b=rix4uni%5C'', ''http://x/?a=rix4uni%3B&b=2'']
   \<and> client dom_site (UserAgent (opts dom_site)) ''http://x/?a=rix4uni&b=2'' (world start)
     = (Inr ''<html></html>'', 1)
   \<and> \<not> Contains ''<html></html>'' ''rix4uni''
   \<and> domScanner dom_site ''http://x/?a=rix4uni&b=2'' 1
     = (Inr ''<html>http://x/?a=rix4uni&b=2</html>'', 2)
   \<and> Contains ''<html>http://x/?a=rix4uni&b=2</html>'' ''rix4uni''
   \<and> (\<exists>evs. trace (processBaseURL plain_lib dom_site ''http://x/?a=1&b=2''
                       ''http://x/?a=rix4uni&b=2'' start) = trace start @ evs
          \<and> network evs = Request ''http://x/?a=rix4uni&b=2''
                           # Navigation ''http://x/?a=rix4uni&b=2''
                           # map Navigation (probed plain_lib dom_site ''http://x/?a=1&b=2'' True 2))
   \<and> probed plain_lib dom_site ''http://x/?a=1&b=2'' True 2
       = [''http://x/?a=rix4uni%27&b=2'', ''http://x/?a=1&b=rix4uni%22'',
          ''http://x/?a=rix4uni%3C&b=2'', ''http://x/?a=1&b=rix4uni%3E'',
          ''http://x/?a=rix4uni%28&b=2'', ''http://x/?a=1&b=rix4uni%29'',
          ''http://x/?a=rix4uni%60&b=2'', ''http://x/?a=1&b=rix4uni%7B'',
          ''http://x/?a=rix4uni%7D&b=2'', ''http://x/?a=1&b=rix4uni%2F'',
          ''http://x/?a=rix4uni%5C&b=2'', ''http://x/?a=1&b=rix4uni%3B'']"
proof -
  let ?u = "''http://x/?a=1&b=2''"
  let ?b = "''http://x/?a=rix4uni&b=2''"
  have s1: "client static_site (UserAgent (opts static_site)) ?b (world start)
     = (Inr ''<p>http://x/?a=rix4uni&b=2</p>'', 1)"
    by code_simp
  have s2: "Contains ''<p>http://x/?a=rix4uni&b=2</p>'' ''rix4uni''"
    by code_simp
  have s3: "probed plain_lib static_site ?u False 1
       = [''http://x/?a=1&b=rix4uni%27'', ''http://x/?a=rix4uni%22&b=2'',
          ''http://x/?a=1&b=rix4uni%3C'', ''http://x/?a=rix4uni%3E&b=2'',
          ''http://x/?a=1&b=rix4uni%28'', ''http://x/?a=rix4uni%29&b=2'',
          ''http://x/?a=1&b=rix4uni%60'', ''http://x/?a=rix4uni%7B&b=2'',
          ''http://x/?a=1&b=rix4uni%7D'', ''http://x/?a=rix4uni%2F&b=2'',
          ''http://x/?a=1&b=rix4uni%5C'', ''http://x/?a=rix4uni%3B&b=2'']"
    by code_simp
  have d1: "client dom_site (UserAgent (opts dom_site)) ?b (world start)
     = (Inr ''<html></html>'', 1)"
    by code_simp
  have d2: "\<not> Contains ''<html></html>'' ''rix4uni''"
    by code_simp
  have d3: "domScanner dom_site ?b 1 = (Inr ''<html>http://x/?a=rix4uni&b=2</html>'', 2)"
    by code_simp
  have d4: "Contains ''<html>http://x/?a=rix4uni&b=2</html>'' ''rix4uni''"
    by code_simp
  have d5: "probed plain_lib dom_site ?u True 2
       = [''http://x/?a=rix4uni%27&b=2'', ''http://x/?a=1&b=rix4uni%22'',
          ''http://x/?a=rix4uni%3C&b=2'', ''http://x/?a=1&b=rix4uni%3E'',
          ''http://x/?a=rix4uni%28&b=2'', ''http://x/?a=1&b=rix4uni%29'',
          ''http://x/?a=rix4uni%60&b=2'', ''http://x/?a=1&b=rix4uni%7B'',
          ''http://x/?a=rix4uni%7D&b=2'', ''http://x/?a=1&b=rix4uni%2F'',
          ''http://x/?a=rix4uni%5C&b=2'', ''http://x/?a=1&b=rix4uni%3B'']"
    by code_simp
  have static: "\<exists>evs. trace (processBaseURL plain_lib static_site ?u ?b start) = trace start @ evs
          \<and> network evs = Request ?b # map Request (probed plain_lib static_site ?u False 1)"
    using probe_channel_locked [OF s1, of plain_lib ?u] s2 by blast
  have rendered: "\<exists>evs. trace (processBaseURL plain_lib dom_site ?u ?b start) = trace start @ evs
          \<and> network evs = Request ?b # Navigation ?b
                           # map Navigation (probed plain_lib dom_site ?u True 2)"
    using probe_channel_locked [OF d1, of plain_lib ?u] d2 d3 d4 by blast
  show ?thesis
    using s1 s2 s3 d1 d2 d3 d4 d5 static rendered by (intro conjI) assumption+
qed

text \<open>
  C5. In the probe loop of a candidate, a probe whose fetch or rendering fails leaves its
  character out of all three result slices and the loop goes on with the characters after
  it: every character that has a test URL is requested once, at the first candidate that
  the generator returns in that round. The three slices are pairwise disjoint, no
  character is in two of them, and together they have at most as many members as the
  alphabet has characters.
\<close>

theorem probe_failure_swallowed:
  fixes st :: "'w state"
  assumes run: "checkSpecialChars lib s inputURL baseURL inDOM output st = (output', st')"
  shows "\<exists>A B C evs.
     Allowed output' = Some A \<and> Blocked output' = Some B \<and> Converted output' = Some C
     \<and> set A \<inter> set B = {} \<and> set A \<inter> set C = {} \<and> set B \<inter> set C = {}
     \<and> card (set A \<union> set B \<union> set C) \<le> length specialChars
     \<and> (\<forall>char \<in> set specialChars. \<forall>conv.
           Sprintf_conv char conv \<in> set C \<longrightarrow> char \<notin> set A \<and> char \<notin> set B)
     \<and> trace st' = trace st @ evs
     \<and> network evs = map (channel inDOM) (probe_urls lib s inputURL inDOM specialChars (world st))
     \<and> (\<forall>pre char post res1 st1 testURL others err.
           specialChars = pre @ char # post
           \<and> probes lib s inputURL inDOM pre (\<lparr>allowed = [], blocked = [], converted = []\<rparr>, st)
               = (res1, st1)
           \<and> GenerateTargetURLs (runtime lib s (world st1)) inputURL (''rix4uni'' @ char)
               = Inr (testURL # others)
           \<and> fst (answer s inDOM testURL (world st1)) = Inl err
           \<longrightarrow> char \<notin> set A \<and> char \<notin> set B \<and> (\<forall>conv. Sprintf_conv char conv \<notin> set C)
               \<and> (\<exists>st2. probe lib s inputURL inDOM char (res1, st1) = (res1, st2)
                     \<and> probes lib s inputURL inDOM specialChars
                         (\<lparr>allowed = [], blocked = [], converted = []\<rparr>, st)
                       = probes lib s inputURL inDOM post (res1, st2)))"
proof -
  let ?none = "\<lparr>allowed = [], blocked = [], converted = []\<rparr>"
  from run obtain res stp e3 where loop:
      "probes lib s inputURL inDOM specialChars (?none, st) = (res, stp)"
    and out: "output' = output\<lparr>Allowed := Some (allowed res), Blocked := Some (blocked res),
                        Converted := Some (converted res),
                        Count := Some [(''allowed'', int (length (allowed res))),
                                       (''blocked'', int (length (blocked res))),
                                       (''converted'', int (length (converted res)))]\<rparr>"
    and e3: "trace st' = trace stp @ e3" "network e3 = []"
    by (rule checkSpecialChars_run)
  from probes_trace [OF loop] obtain e2 where e2: "trace stp = trace st @ e2"
    "network e2 = map (channel inDOM) (probe_urls lib s inputURL inDOM specialChars (world st))"
    by blast
  have inv: "sorted_out (set specialChars) res"
    using sorted_out_probes [OF sorted_out_empty specialChars_facts(1) _ specialChars_facts(2) loop]
    by simp
  have fields: "Allowed output' = Some (allowed res)" "Blocked output' = Some (blocked res)"
    "Converted output' = Some (converted res)"
    by (simp_all add: out)
  have ab: "set (allowed res) \<inter> set (blocked res) = {}"
    using inv by (simp add: sorted_out_def)
  have ac: "set (allowed res) \<inter> set (converted res) = {}"
    and bc: "set (blocked res) \<inter> set (converted res) = {}"
    using sorted_out_disjoint [OF inv] by simp_all
  have "card (set (allowed res) \<union> set (blocked res) \<union> set (converted res))
          \<le> card (set specialChars)"
    using sorted_out_disjoint(3) [OF inv] .
  also have "\<dots> \<le> length specialChars" by (rule card_length)
  finally have card: "card (set (allowed res) \<union> set (blocked res) \<union> set (converted res))
          \<le> length specialChars" .
  have excl: "\<forall>char \<in> set specialChars. \<forall>conv.
           Sprintf_conv char conv \<in> set (converted res)
             \<longrightarrow> char \<notin> set (allowed res) \<and> char \<notin> set (blocked res)"
    using inv specialChars_facts(2) unfolding sorted_out_def by blast
  have tr: "trace st' = trace st @ (e2 @ e3)"
    "network (e2 @ e3) = map (channel inDOM) (probe_urls lib s inputURL inDOM specialChars (world st))"
    using e2 e3 by simp_all
  have fail: "char \<notin> set (allowed res) \<and> char \<notin> set (blocked res)
               \<and> (\<forall>conv. Sprintf_conv char conv \<notin> set (converted res))
               \<and> (\<exists>st2. probe lib s inputURL inDOM char (res1, st1) = (res1, st2)
                     \<and> probes lib s inputURL inDOM specialChars (?none, st)
                       = probes lib s inputURL inDOM post (res1, st2))"
    if split: "specialChars = pre @ char # post"
      and before: "probes lib s inputURL inDOM pre (?none, st) = (res1, st1)"
      and gen: "GenerateTargetURLs (runtime lib s (world st1)) inputURL (''rix4uni'' @ char)
               = Inr (testURL # others)"
      and err: "fst (answer s inDOM testURL (world st1)) = Inl err"
    for pre char post res1 st1 testURL others err
  proof -
    have dist: "distinct pre" "distinct post" "char \<notin> set pre" "char \<notin> set post"
      "set post \<inter> set pre = {}"
      using specialChars_facts(1) unfolding split by auto
    have one: "\<forall>c \<in> set pre. length c = 1" "\<forall>c \<in> set post. length c = 1" "length char = 1"
      using specialChars_facts(2) unfolding split by auto
    have inv1: "sorted_out (set pre) res1"
      using sorted_out_probes [OF sorted_out_empty dist(1) _ one(1) before] by simp
    from probe_failed [OF gen err] obtain st2 where
      step: "probe lib s inputURL inDOM char (res1, st1) = (res1, st2)" by blast
    have cont: "probes lib s inputURL inDOM specialChars (?none, st)
                  = probes lib s inputURL inDOM post (res1, st2)"
      unfolding split by (simp add: probes_append before step)
    with loop have after: "probes lib s inputURL inDOM post (res1, st2) = (res, stp)" by simp
    have inv2: "sorted_out (set pre \<union> set post) res"
      using sorted_out_probes [OF inv1 dist(2) dist(5) one(2) after] .
    then have a: "set (allowed res) \<subseteq> set pre \<union> set post"
      and b: "set (blocked res) \<subseteq> set pre \<union> set post"
      and c: "\<forall>x \<in> set (converted res). \<exists>c \<in> set pre \<union> set post. \<exists>conv. x = Sprintf_conv c conv"
      by (simp_all add: sorted_out_def)
    have "char \<notin> set (allowed res)" "char \<notin> set (blocked res)"
      using a b dist by auto
    moreover have "Sprintf_conv char conv \<notin> set (converted res)" for conv
    proof
      assume "Sprintf_conv char conv \<in> set (converted res)"
      with c obtain c' conv' where c': "c' \<in> set pre \<union> set post"
        "Sprintf_conv char conv = Sprintf_conv c' conv'" by blast
      then have "length c' = 1" using one by auto
      with c' one(3) have "char = c'" using Sprintf_conv_inj by blast
      with c' dist show False by auto
    qed
    ultimately show ?thesis using step cont by blast
  qed
  show ?thesis
    apply (rule exI [of _ "allowed res"], rule exI [of _ "blocked res"],
           rule exI [of _ "converted res"], rule exI [of _ "e2 @ e3"])
    using fields ab ac bc card excl tr fail by blast
qed

theorem probe_failure_swallowed_witness:
  "specialChars = [[CHR 0x27], [CHR 0x22]] @ ''<''
       # [''>'', ''('', '')'', [CHR 0x60], ''{'', ''}'', ''/'', [CHR 0x5C], '';'']
   \<and> probes plain_lib static_site ''http://x/?a=1&b=2'' False [[CHR 0x27], [CHR 0x22]]
         (\<lparr>allowed = [], blocked = [], converted = []\<rparr>, start)
       = (\<lparr>allowed = [], blocked = [[CHR 0x27]],
           converted = [Sprintf_conv [CHR 0x22] ''&quot;'']\<rparr>,
          \<lparr>world = 2,
           trace = [Request ''http://x/?a=rix4uni%27&b=2'',
                    Request ''http://x/?a=1&b=rix4uni%22'']\<rparr>)
   \<and> GenerateTargetURLs (runtime plain_lib static_site 2) ''http://x/?a=1&b=2'' (''rix4uni'' @ ''<'')
       = Inr [''http://x/?a=rix4uni%3C&b=2'', ''http://x/?a=1&b=rix4uni%3C'']
   \<and> fst (answer static_site False ''http://x/?a=rix4uni%3C&b=2'' 2) = Inl ''context deadline exceeded''
   \<and> (\<exists>output' st' A B C.
          checkSpecialChars plain_lib static_site ''http://x/?a=1&b=2'' ''http://x/?a=rix4uni&b=2'' False
            zero_JSONOutput start = (output', st')
          \<and> Allowed output' = Some A \<and> Blocked output' = Some B \<and> Converted output' = Some C
          \<and> ''<'' \<notin> set A \<and> ''<'' \<notin> set B \<and> (\<forall>conv. Sprintf_conv ''<'' conv \<notin> set C)
          \<and> set A \<inter> set B = {} \<and> set A \<inter> set C = {} \<and> set B \<inter> set C = {}
          \<and> card (set A \<union> set B \<union> set C) \<le> 12)"
proof -
  let ?u = "''http://x/?a=1&b=2''"
  let ?pre = "[[CHR 0x27], [CHR 0x22]]"
  let ?post = "[''>'', ''('', '')'', [CHR 0x60], ''{'', ''}'', ''/'', [CHR 0x5C], '';'']"
  let ?res1 = "\<lparr>allowed = [], blocked = [[CHR 0x27]],
                converted = [Sprintf_conv [CHR 0x22] ''&quot;'']\<rparr>"
  let ?st1 = "\<lparr>world = 2::nat,
               trace = [Request ''http://x/?a=rix4uni%27&b=2'',
                    Request ''http://x/?a=1&b=rix4uni%22'']\<rparr>"
  have h1: "specialChars = ?pre @ ''<'' # ?post"
    by (simp add: specialChars_def)
  have h2: "probes plain_lib static_site ?u False ?pre
              (\<lparr>allowed = [], blocked = [], converted = []\<rparr>, start) = (?res1, ?st1)"
    by code_simp
  have h3: "GenerateTargetURLs (runtime plain_lib static_site (world ?st1)) ?u (''rix4uni'' @ ''<'')
              = Inr [''http://x/?a=rix4uni%3C&b=2'', ''http://x/?a=1&b=rix4uni%3C'']"
    by code_simp
  have h4: "fst (answer static_site False ''http://x/?a=rix4uni%3C&b=2'' (world ?st1))
              = Inl ''context deadline exceeded''"
    by code_simp
  obtain output' st' where run:
    "checkSpecialChars plain_lib static_site ?u ''http://x/?a=rix4uni&b=2'' False zero_JSONOutput start
       = (output', st')"
    by (cases "checkSpecialChars plain_lib static_site ?u ''http://x/?a=rix4uni&b=2'' False
                 zero_JSONOutput start")
  from probe_failure_swallowed [OF run] obtain A B C where
    abc: "Allowed output' = Some A" "Blocked output' = Some B" "Converted output' = Some C"
      "set A \<inter> set B = {}" "set A \<inter> set C = {}" "set B \<inter> set C = {}"
      "card (set A \<union> set B \<union> set C) \<le> length specialChars"
    and fail: "\<forall>pre char post res1 st1 testURL others err.
           specialChars = pre @ char # post
           \<and> probes plain_lib static_site ?u False pre
                 (\<lparr>allowed = [], blocked = [], converted = []\<rparr>, start) = (res1, st1)
           \<and> GenerateTargetURLs (runtime plain_lib static_site (world st1)) ?u (''rix4uni'' @ char)
               = Inr (testURL # others)
           \<and> fst (answer static_site False testURL (world st1)) = Inl err
           \<longrightarrow> char \<notin> set A \<and> char \<notin> set B \<and> (\<forall>conv. Sprintf_conv char conv \<notin> set C)
               \<and> (\<exists>st2. probe plain_lib static_site ?u False char (res1, st1) = (res1, st2)
                     \<and> probes plain_lib static_site ?u False specialChars
                         (\<lparr>allowed = [], blocked = [], converted = []\<rparr>, start)
                       = probes plain_lib static_site ?u False post (res1, st2))"
    by (elim exE conjE) (rule that)
  have absent: "''<'' \<notin> set A \<and> ''<'' \<notin> set B \<and> (\<forall>conv. Sprintf_conv ''<'' conv \<notin> set C)"
    using fail [rule_format, of ?pre "''<''" ?post ?res1 ?st1 "''http://x/?a=rix4uni%3C&b=2''"
                   "[''http://x/?a=1&b=rix4uni%3C'']"
                   "''context deadline exceeded''"] h1 h2 h3 h4
    by blast
  have len: "length specialChars = 12" by (rule specialChars_facts(3))
  show ?thesis
    using h1 h2 h3 h4 run abc absent len by (simp del: Contains.simps)
qed

text \<open>
  C9. Every JSON record that the processing of a candidate prints has the fields
  \<^verbatim>\<open>allowed\<close>, \<^verbatim>\<open>blocked\<close> and \<^verbatim>\<open>converted\<close> as arrays, never as \<^verbatim>\<open>null\<close>, and the
  entries of its \<^verbatim>\<open>count\<close> are the lengths of these arrays.
\<close>

theorem json_record_arrays_present:
  fixes st :: "'w state"
  shows "\<exists>evs. trace (processBaseURL lib s inputURL baseURL st) = trace st @ evs
     \<and> (\<forall>j \<in> set (printed_json evs). \<exists>reflected A B C.
           j = JObject [(''processing'', JString inputURL), (''baseurl'', JString baseURL),
                        (''reflected'', JBool reflected),
                        (''allowed'', JArray (map JString A)),
                        (''blocked'', JArray (map JString B)),
                        (''converted'', JArray (map JString C)),
                        (''count'', JObject [(''allowed'', JNumber (int (length A))),
                                             (''blocked'', JNumber (int (length B))),
                                             (''converted'', JNumber (int (length C)))])])"
  using processBaseURL_trace [of lib s inputURL baseURL st]
  unfolding full_record_def by blast

theorem json_record_arrays_present_witness:
  "\<exists>evs j. trace (processBaseURL plain_lib static_site ''http://x/?q=1'' ''http://x/?q=rix4uni''
                  start) = trace start @ evs
     \<and> printed_json evs = [j]
     \<and> (\<exists>reflected A B C.
           j = JObject [(''processing'', JString ''http://x/?q=1''),
                        (''baseurl'', JString ''http://x/?q=rix4uni''),
                        (''reflected'', JBool reflected),
                        (''allowed'', JArray (map JString A)),
                        (''blocked'', JArray (map JString B)),
                        (''converted'', JArray (map JString C)),
                        (''count'', JObject [(''allowed'', JNumber (int (length A))),
                                             (''blocked'', JNumber (int (length B))),
                                             (''converted'', JNumber (int (length C)))])])"
proof -
  let ?run = "processBaseURL plain_lib static_site ''http://x/?q=1'' ''http://x/?q=rix4uni'' start"
  have one: "length (printed_json (trace ?run)) = 1"
    by code_simp
  have empty: "trace start = []"
    by (simp add: start_def)
  from json_record_arrays_present [of plain_lib static_site "''http://x/?q=1''"
         "''http://x/?q=rix4uni''" start]
  obtain evs where evs: "trace ?run = trace start @ evs"
    and ok: "\<forall>j \<in> set (printed_json evs). \<exists>reflected A B C.
           j = JObject [(''processing'', JString ''http://x/?q=1''),
                        (''baseurl'', JString ''http://x/?q=rix4uni''),
                        (''reflected'', JBool reflected),
                        (''allowed'', JArray (map JString A)),
                        (''blocked'', JArray (map JString B)),
                        (''converted'', JArray (map JString C)),
                        (''count'', JObject [(''allowed'', JNumber (int (length A))),
                                             (''blocked'', JNumber (int (length B))),
                                             (''converted'', JNumber (int (length C)))])]"
    by (elim exE conjE) (rule that)
  from one evs empty have "length (printed_json evs) = 1" by simp
  then obtain j where j: "printed_json evs = [j]"
    by (cases "printed_json evs") auto
  with ok evs show ?thesis by (intro exI [of _ evs] exI [of _ j]) simp
qed

subsection \<open>Blank lines\<close>

lemma parseQuery_empty: "parseQuery m [] = m"
  by (subst parseQuery.simps) simp

text \<open>
  Parsing does not range over a map, and the empty text has no parameter to range over:
  the answer of the generator to the empty text is the same under every key order.
\<close>

lemma Parse_runtime: "Parse (runtime lib s w) rawURL = Parse lib rawURL"
proof -
  have head: "parse_head (runtime lib s w) = parse_head lib"
    and fragment: "parse_fragment (runtime lib s w) = parse_fragment lib"
    by (simp_all add: runtime_def)
  show ?thesis unfolding Parse_def head fragment ..
qed

lemma GenerateTargetURLs_blank:
  "GenerateTargetURLs (runtime lib s w) [] payload = GenerateTargetURLs lib [] payload"
proof -
  have "\<exists>e. Parse lib [] = Inl e
          \<or> (\<exists>u. Parse lib [] = Inr u \<and> Query u = [])"
    by (cases "parse_head lib []")
       (simp_all add: Parse_def stringContainsCTLByte_def Query_def ParseQuery_def
          parseQuery_empty Let_def)
  then show ?thesis
    by (auto simp: GenerateTargetURLs_def Parse_runtime Let_def)
qed

text \<open>
  C8, as amended. A blank line is not filtered out: it is scanned like every other line.
  Target generation fails for it, so no request is sent and no record is printed; the
  header of the line is printed unless the output is JSON, and the error line is printed
  in verbose mode; the worker goes on with the next line.
\<close>

theorem blank_line_scanned:
  fixes st :: "'w state"
  shows "\<exists>err. GenerateTargetURLs lib [] ''rix4uni'' = Inl err
     \<and> Scan lib s [] st =
         st\<lparr>trace := trace st
               @ (if JSONOutput (opts s) then []
                  else [Stdout (if NoColor (opts s) then LF @ ''PROCESSING: '' @ LF
                                else LF @ ESC @ ''[96mPROCESSING: '' @ ESC @ ''[0m'' @ LF)])
               @ (if Verbose (opts s)
                  then [Stdout (''Error generating target URLs: '' @ Error_text err @ LF)]
                  else [])\<rparr>
     \<and> worker lib s ([] # jobs) st = worker lib s jobs (Scan lib s [] st)"
proof -
  have "\<exists>err. GenerateTargetURLs lib [] ''rix4uni'' = Inl err"
    by (cases "parse_head lib []")
       (simp_all add: GenerateTargetURLs_def Parse_def stringContainsCTLByte_def Query_def
          ParseQuery_def parseQuery_empty Let_def)
  then obtain err where err: "GenerateTargetURLs lib [] ''rix4uni'' = Inl err" by blast
  have "Scan lib s [] st =
         st\<lparr>trace := trace st
               @ (if JSONOutput (opts s) then []
                  else [Stdout (if NoColor (opts s) then LF @ ''PROCESSING: '' @ LF
                                else LF @ ESC @ ''[96mPROCESSING: '' @ ESC @ ''[0m'' @ LF)])
               @ (if Verbose (opts s)
                  then [Stdout (''Error generating target URLs: '' @ Error_text err @ LF)]
                  else [])\<rparr>"
    using err by (simp add: Scan_def Print_def Let_def GenerateTargetURLs_blank)
  moreover have "worker lib s ([] # jobs) st = worker lib s jobs (Scan lib s [] st)"
    by (simp add: worker_def)
  ultimately show ?thesis using err by blast
qed

theorem blank_line_scanned_witness:
  "GenerateTargetURLs plain_lib [] ''rix4uni'' = Inl NoInjectionPoints
   \<and> trace (Scan plain_lib verbose_site [] start)
       = [Stdout (LF @ ''PROCESSING: '' @ LF),
          Stdout (''Error generating target URLs: no injection points found'' @ LF)]
   \<and> world (Scan plain_lib verbose_site [] start) = 0
   \<and> trace (Scan plain_lib static_site [] start)
       = [Stdout (''Error generating target URLs: no injection points found'' @ LF)]"
proof -
  have g: "GenerateTargetURLs plain_lib [] ''rix4uni'' = Inl NoInjectionPoints"
    by code_simp
  have o: "\<not> JSONOutput (opts verbose_site)" "NoColor (opts verbose_site)"
    "Verbose (opts verbose_site)" "JSONOutput (opts static_site)" "Verbose (opts static_site)"
    by (simp_all add: verbose_site_def static_site_def demo_opts_def)
  have e: "Error_text NoInjectionPoints = ''no injection points found''"
    by (simp add: Error_text_def)
  show ?thesis
    using blank_line_scanned [of plain_lib verbose_site start "[]"]
      blank_line_scanned [of plain_lib static_site start "[]"] g o e
    by (auto simp: start_def)
qed

text \<open>
  As stated, C8 fails: with human-readable verbose output a blank line prints its header
  and an error message.
\<close>

theorem blank_line_ignored_counterexample:
  "trace (worker plain_lib verbose_site [[]] start)
     = [Stdout (LF @ ''PROCESSING: '' @ LF),
        Stdout (''Error generating target URLs: no injection points found'' @ LF)]
   \<and> trace (worker plain_lib verbose_site [[]] start) \<noteq> trace start"
proof -
  have "trace (worker plain_lib verbose_site [[]] start)
     = [Stdout (LF @ ''PROCESSING: '' @ LF),
        Stdout (''Error generating target URLs: no injection points found'' @ LF)]"
    by code_simp
  then show ?thesis by (simp add: start_def)
qed

subsection \<open>Query strings and the fan-out over the parameters\<close>

text \<open>
  Unescaping undoes escaping, an escaped text has none of the separators in it, and so
  parsing an encoded query gives back the values that were encoded; the copy of the
  parameters made for one key is the original with that key set to the payload.
\<close>

lemma hex_digits:
  "\<forall>n \<in> set [0..<16]. ishex (upperhex ! n) \<and> unhex (upperhex ! n) = n
      \<and> upperhex ! n \<noteq> CHR ''&'' \<and> upperhex ! n \<noteq> CHR '';'' \<and> upperhex ! n \<noteq> CHR ''=''"
  by code_simp

lemma hex_digit:
  assumes "n < 16"
  shows "ishex (upperhex ! n)" and "unhex (upperhex ! n) = n"
    and "upperhex ! n \<notin> {CHR ''&'', CHR '';'', CHR ''=''}"
proof -
  from assms have "n \<in> set [0..<16]" by simp
  with hex_digits show "ishex (upperhex ! n)" and "unhex (upperhex ! n) = n"
    and "upperhex ! n \<notin> {CHR ''&'', CHR '';'', CHR ''=''}"
    by blast+
qed

lemma of_char_less_256: "of_char (c :: char) < (256 :: nat)"
  by (metis of_char_mod_256 mod_less_divisor zero_less_numeral)

lemma unescape_escape_byte:
  "QueryUnescape (escape_byte c @ rest) = map_option ((#) c) (QueryUnescape rest)"
proof -
  consider "c = CHR '' ''" | "c \<noteq> CHR '' ''" "shouldEscape c" | "c \<noteq> CHR '' ''" "\<not> shouldEscape c"
    by blast
  then show ?thesis
  proof cases
    case 1
    then show ?thesis by (simp add: escape_byte_def)
  next
    case 2
    let ?n = "of_char c :: nat"
    have hi: "?n div 16 < 16" and lo: "?n mod 16 < 16"
      using of_char_less_256 [of c] by arith+
    have "char_of (unhex (upperhex ! (?n div 16)) * 16 + unhex (upperhex ! (?n mod 16))) = c"
      using hex_digit(2) [OF hi] hex_digit(2) [OF lo] by simp
    with 2 hex_digit(1) [OF hi] hex_digit(1) [OF lo] show ?thesis
      by (simp add: escape_byte_def)
  next
    case 3
    then have "c \<noteq> CHR ''%''" "c \<noteq> CHR ''+''"
      by (auto simp: shouldEscape_def less_eq_char_def)
    with 3 show ?thesis by (simp add: escape_byte_def)
  qed
qed

lemma QueryUnescape_QueryEscape: "QueryUnescape (QueryEscape s) = Some s"
proof (induction s)
  case Nil
  then show ?case by (simp add: QueryEscape_def)
next
  case (Cons c cs)
  have "QueryEscape (c # cs) = escape_byte c @ QueryEscape cs"
    by (simp add: QueryEscape_def)
  with Cons show ?case by (simp add: unescape_escape_byte)
qed

lemma escape_byte_safe: "ch \<in> set (escape_byte c) \<Longrightarrow> ch \<notin> {CHR ''&'', CHR '';'', CHR ''=''}"
proof -
  assume ch: "ch \<in> set (escape_byte c)"
  let ?n = "of_char c :: nat"
  have hi: "?n div 16 < 16" and lo: "?n mod 16 < 16"
    using of_char_less_256 [of c] by arith+
  consider "c = CHR '' ''" | "c \<noteq> CHR '' ''" "shouldEscape c" | "c \<noteq> CHR '' ''" "\<not> shouldEscape c"
    by blast
  then show ?thesis
  proof cases
    case 1
    with ch show ?thesis by (simp add: escape_byte_def)
  next
    case 2
    with ch have "ch = CHR ''%'' \<or> ch = upperhex ! (?n div 16) \<or> ch = upperhex ! (?n mod 16)"
      by (simp add: escape_byte_def)
    with hex_digit(3) [OF hi] hex_digit(3) [OF lo] show ?thesis by auto
  next
    case 3
    with ch have "ch = c" by (simp add: escape_byte_def)
    with 3 show ?thesis by (auto simp: shouldEscape_def less_eq_char_def)
  qed
qed

lemma QueryEscape_safe: "ch \<in> set (QueryEscape s) \<Longrightarrow> ch \<notin> {CHR ''&'', CHR '';'', CHR ''=''}"
  unfolding QueryEscape_def using escape_byte_safe by auto

lemma Cut_found: "c \<notin> set xs \<Longrightarrow> Cut (xs @ c # ys) [c] = (xs, ys, True)"
  by (induction xs) auto

lemma Cut_not_found: "c \<notin> set xs \<Longrightarrow> Cut xs [c] = (xs, [], False)"
  by (induction xs) auto

lemma Contains_char: "Contains s [c] \<longleftrightarrow> c \<in> set s"
  by (induction s) auto

lemma map_of_Add: "map_of (Add m k val) = (map_of m)(k \<mapsto> Get_all m k @ [val])"
  by (simp add: Add_def update_conv')

lemma map_of_Set: "map_of (Set m k val) = (map_of m)(k \<mapsto> [val])"
  by (simp add: Set_def update_conv')

lemma well_formed_Add: "well_formed m \<Longrightarrow> well_formed (Add m k val)"
  by (auto simp: well_formed_def map_of_Add) (simp add: Add_def distinct_update)

lemma well_formed_Set: "well_formed m \<Longrightarrow> well_formed (Set m k val)"
  by (auto simp: well_formed_def map_of_Set) (simp add: Set_def distinct_update)

lemma well_formed_Nil: "well_formed []"
  by (simp add: well_formed_def)

lemma well_formed_parseQuery: "well_formed m \<Longrightarrow> well_formed (parseQuery m query)"
proof (induction m query rule: parseQuery.induct)
  case (1 m query)
  show ?case
  proof (cases "query = []")
    case True
    with "1.prems" show ?thesis by (subst parseQuery.simps) simp
  next
    case False
    obtain key rest f where cut: "Cut query ''&'' = (key, rest, f)"
      by (cases "Cut query ''&''")
    obtain k val g where cut2: "Cut key ''='' = (k, val, g)"
      by (cases "Cut key ''=''")
    note ih = "1.IH" [OF False cut [symmetric] refl]
    show ?thesis
    proof (cases "Contains key '';'' \<or> key = []")
      case True
      then show ?thesis
        using False cut ih(1,2) "1.prems"
        by (subst parseQuery.simps) auto
    next
      case nsep: False
      note ih2 = ih(3-) [OF _ _ cut2 [symmetric] refl]
      show ?thesis
      proof (cases "QueryUnescape k")
        case None
        then show ?thesis
          using False cut cut2 nsep ih2(1) "1.prems"
          by (subst parseQuery.simps) auto
      next
        case (Some k')
        show ?thesis
        proof (cases "QueryUnescape val")
          case None
          then show ?thesis
            using False cut cut2 nsep Some ih2(2) "1.prems"
            by (subst parseQuery.simps) auto
        next
          case (Some val')
          then show ?thesis
            using False cut cut2 nsep \<open>QueryUnescape k = Some k'\<close> ih2(3) "1.prems"
            by (subst parseQuery.simps) (auto simp: well_formed_Add)
        qed
      qed
    qed
  qed
qed

lemma well_formed_Query: "well_formed (Query u)"
  by (simp add: Query_def ParseQuery_def well_formed_parseQuery well_formed_Nil)

lemma pair_text_safe: "CHR ''&'' \<notin> set (pair_text p)" "CHR '';'' \<notin> set (pair_text p)"
  "pair_text p \<noteq> []"
  using QueryEscape_safe [of _ "fst p"] QueryEscape_safe [of _ "snd p"]
  by (auto simp: pair_text_def)

lemma Cut_pair_text: "Cut (pair_text p) ''='' = (QueryEscape (fst p), QueryEscape (snd p), True)"
proof -
  have "CHR ''='' \<notin> set (QueryEscape (fst p))"
    using QueryEscape_safe [of "CHR ''=''" "fst p"] by blast
  from Cut_found [OF this] show ?thesis by (simp add: pair_text_def)
qed

lemma parseQuery_pair_more:
  "parseQuery m (pair_text p @ CHR ''&'' # rest) = parseQuery (Add m (fst p) (snd p)) rest"
proof -
  have cut: "Cut (pair_text p @ CHR ''&'' # rest) ''&'' = (pair_text p, rest, True)"
    using Cut_found [of "CHR ''&''" "pair_text p" rest] pair_text_safe(1) [of p] by simp
  show ?thesis
    by (subst parseQuery.simps)
       (simp add: cut Contains_char pair_text_safe Cut_pair_text QueryUnescape_QueryEscape
          del: Contains.simps)
qed

lemma parseQuery_pair_last: "parseQuery m (pair_text p) = Add m (fst p) (snd p)"
proof -
  have cut: "Cut (pair_text p) ''&'' = (pair_text p, [], False)"
    using Cut_not_found [of "CHR ''&''" "pair_text p"] pair_text_safe(1) [of p] by simp
  show ?thesis
    by (subst parseQuery.simps)
       (simp add: cut Contains_char pair_text_safe Cut_pair_text QueryUnescape_QueryEscape
          parseQuery_empty del: Contains.simps)
qed

lemma parseQuery_Join:
  "parseQuery m (Join (map pair_text ps) ''&'') = fold (\<lambda>p m. Add m (fst p) (snd p)) ps m"
proof (induction ps arbitrary: m)
  case Nil
  then show ?case by (simp add: parseQuery_empty)
next
  case (Cons p ps)
  show ?case
  proof (cases ps)
    case Nil
    then show ?thesis by (simp add: parseQuery_pair_last)
  next
    case (Cons q qs)
    then have "Join (map pair_text (p # ps)) ''&'' = pair_text p @ ''&'' @ Join (map pair_text ps) ''&''"
      by simp
    then show ?thesis using Cons.IH by (simp add: parseQuery_pair_more)
  qed
qed

lemma Encode_pairs:
  "Encode v = Join (map pair_text (concat (map (\<lambda>k. map (Pair k) (Get_all v k)) (sort (map fst v)))))
                ''&''"
  by (simp add: Encode_def pair_text_def map_concat comp_def)

lemma Get_all_Add: "Get_all (Add m k val) k' = (if k' = k then Get_all m k @ [val] else Get_all m k')"
  by (simp add: Get_all_def map_of_Add)

lemma fold_Add_values:
  "map_of (fold (\<lambda>val m. Add m k val) vs m)
     = (if vs = [] then map_of m else (map_of m)(k \<mapsto> Get_all m k @ vs))"
proof (induction vs arbitrary: m)
  case Nil
  then show ?case by simp
next
  case (Cons val vs)
  show ?case
    by (cases "vs = []") (simp_all add: Cons.IH map_of_Add Get_all_Add)
qed

lemma fold_pairs:
  "fold (\<lambda>p m. Add m (fst p) (snd p)) (concat (map (\<lambda>k. map (Pair k) (g k)) ks)) m
     = fold (\<lambda>k m. fold (\<lambda>val m. Add m k val) (g k) m) ks m"
  by (induction ks arbitrary: m) (simp_all add: fold_map comp_def)

lemma Get_all_fold_other:
  "k' \<noteq> k \<Longrightarrow> Get_all (fold (\<lambda>val m. Add m k val) vs m) k' = Get_all m k'"
  by (simp add: Get_all_def fold_Add_values)

lemma map_of_fold_keys:
  "distinct ks \<Longrightarrow>
   map_of (fold (\<lambda>k m. fold (\<lambda>val m. Add m k val) (g k) m) ks m) k'
     = (if k' \<in> set ks \<and> g k' \<noteq> [] then Some (Get_all m k' @ g k') else map_of m k')"
proof (induction ks arbitrary: m)
  case Nil
  then show ?case by simp
next
  case (Cons k ks)
  let ?m1 = "fold (\<lambda>val m. Add m k val) (g k) m"
  have "map_of (fold (\<lambda>k m. fold (\<lambda>val m. Add m k val) (g k) m) (k # ks) m) k'
          = (if k' \<in> set ks \<and> g k' \<noteq> [] then Some (Get_all ?m1 k' @ g k') else map_of ?m1 k')"
    using Cons by simp
  also have "\<dots> = (if k' \<in> set (k # ks) \<and> g k' \<noteq> [] then Some (Get_all m k' @ g k')
                    else map_of m k')"
    using Cons.prems by (auto simp: Get_all_fold_other fold_Add_values)
  finally show ?case .
qed

lemma Get_all_Nil: "Get_all [] k = []"
  by (simp add: Get_all_def)

lemma ParseQuery_Encode:
  assumes "well_formed v"
  shows "map_of (ParseQuery (Encode v)) = map_of v"
proof
  fix k'
  have d: "distinct (sort (map fst v))"
    using assms by (simp add: well_formed_def)
  have "map_of (ParseQuery (Encode v)) k'
          = (if k' \<in> set (map fst v) \<and> Get_all v k' \<noteq> [] then Some (Get_all v k') else None)"
    using map_of_fold_keys [OF d, of "Get_all v" "[]" k']
    by (simp add: ParseQuery_def Encode_pairs parseQuery_Join fold_pairs Get_all_Nil)
  also have "\<dots> = map_of v k'"
  proof (cases "map_of v k'")
    case None
    then show ?thesis by (simp add: Get_all_def)
  next
    case (Some vs)
    then have "k' \<in> set (map fst v)" by (metis map_of_eq_None_iff option.distinct(1) set_map)
    moreover from Some assms have "vs \<noteq> []" by (auto simp: well_formed_def)
    ultimately show ?thesis using Some by (simp add: Get_all_def)
  qed
  finally show "map_of (ParseQuery (Encode v)) k' = map_of v k'" .
qed

lemma Get_all_Set: "Get_all (Set m k val) k' = (if k' = k then [val] else Get_all m k')"
  by (simp add: Get_all_def map_of_Set)

lemma well_formed_fold_Add: "well_formed m \<Longrightarrow> well_formed (fold (\<lambda>val m. Add m k val) vs m)"
  by (induction vs arbitrary: m) (simp_all add: well_formed_Add)

lemma newParams_fold:
  assumes "distinct ks" and "well_formed np"
  shows "well_formed (fold (\<lambda>k np. if k = key then Set np k payload
                                    else fold (\<lambda>val np'. Add np' k val) (Get_all qp k) np) ks np)
    \<and> (\<forall>k'. map_of (fold (\<lambda>k np. if k = key then Set np k payload
                                    else fold (\<lambda>val np'. Add np' k val) (Get_all qp k) np) ks np) k'
           = (if k' \<in> set ks
              then (if k' = key then Some [payload]
                    else if Get_all qp k' \<noteq> [] then Some (Get_all np k' @ Get_all qp k')
                    else map_of np k')
              else map_of np k'))"
  using assms
proof (induction ks arbitrary: np)
  case Nil
  then show ?case by simp
next
  case (Cons k ks)
  let ?step = "\<lambda>k np. if k = key then Set np k payload
                        else fold (\<lambda>val np'. Add np' k val) (Get_all qp k) np"
  let ?np1 = "?step k np"
  have wf1: "well_formed ?np1"
    using Cons.prems by (simp add: well_formed_Set well_formed_fold_Add)
  from Cons.prems have d: "distinct ks" "k \<notin> set ks" by simp_all
  note ih = Cons.IH [OF d(1) wf1]
  have other: "k' \<noteq> k \<Longrightarrow> map_of ?np1 k' = map_of np k' \<and> Get_all ?np1 k' = Get_all np k'" for k'
    by (cases "k = key") (simp_all add: map_of_Set Get_all_Set fold_Add_values Get_all_fold_other)
  have this_key: "map_of ?np1 k = (if k = key then Some [payload]
                    else if Get_all qp k \<noteq> [] then Some (Get_all np k @ Get_all qp k)
                    else map_of np k)"
    by (cases "k = key") (simp_all add: map_of_Set fold_Add_values)
  show ?case
  proof (intro conjI allI)
    show "well_formed (fold ?step (k # ks) np)"
      using ih by simp
    fix k'
    show "map_of (fold ?step (k # ks) np) k'
           = (if k' \<in> set (k # ks)
              then (if k' = key then Some [payload]
                    else if Get_all qp k' \<noteq> [] then Some (Get_all np k' @ Get_all qp k')
                    else map_of np k')
              else map_of np k')"
    proof (cases "k' = k")
      case True
      with d ih this_key show ?thesis by simp
    next
      case False
      with ih other [OF False] show ?thesis by simp
    qed
  qed
qed

lemma newParams_content:
  assumes wf: "well_formed qp" and ok: "range_ok lib qp" and key: "key \<in> set (range_keys lib qp)"
  shows "well_formed (newParams lib qp key payload)"
    and "map_of (newParams lib qp key payload) = (map_of qp)(key \<mapsto> [payload])"
proof -
  from ok have d: "distinct (range_keys lib qp)" and keys: "set (range_keys lib qp) = set (map fst qp)"
    by (simp_all add: range_ok_def)
  note fold = newParams_fold [OF d well_formed_Nil, of key payload qp, folded newParams_def]
  from fold show "well_formed (newParams lib qp key payload)" by blast
  show "map_of (newParams lib qp key payload) = (map_of qp)(key \<mapsto> [payload])"
  proof
    fix k'
    show "map_of (newParams lib qp key payload) k' = ((map_of qp)(key \<mapsto> [payload])) k'"
    proof (cases "map_of qp k'")
      case None
      then have "k' \<notin> set (map fst qp)" by (simp add: map_of_eq_None_iff)
      with None keys key fold show ?thesis by (auto simp: Get_all_Nil)
    next
      case (Some vs)
      then have "k' \<in> set (map fst qp)" by (metis map_of_eq_None_iff option.distinct(1) set_map)
      moreover from Some wf have "Get_all qp k' = vs" "vs \<noteq> []"
        by (auto simp: well_formed_def Get_all_def)
      ultimately show ?thesis using Some keys fold by (simp add: Get_all_Nil)
    qed
  qed
qed

lemma ParseQuery_empty: "ParseQuery [] = []"
  by (simp add: ParseQuery_def parseQuery_empty)

text \<open>
  C1, as amended. For an input URL without the placeholder token that parses and has k
  distinct query parameter keys, k at least one, the generator returns exactly k
  candidates, one for each key, in the order in which the runtime visits the keys of the
  parameter map (which Go leaves unspecified and which need not be the order of parsing).
  Each candidate is the head of the URL as the library writes it back, a query string, and
  the fragment; parsed again, the query string gives the payload as the only value of the
  candidate's key and to every other key exactly its decoded values of the input, in
  their order.
\<close>

theorem GenerateTargetURLs_fanout:
  assumes no_token: "\<not> Contains inputURL ''{payload}''"
      and parsed: "Parse lib inputURL = Inr u"
      and params: "Query u \<noteq> []"
      and order: "range_ok lib (Query u)"
  shows "\<exists>targets. GenerateTargetURLs lib inputURL payload = Inr targets
     \<and> length targets = card (fst ` set (Query u))
     \<and> (\<forall>i < length targets. \<exists>q.
           targets ! i = Head u @ ''?'' @ q @ (case Fragment u of None \<Rightarrow> [] | Some f \<Rightarrow> ''#'' @ f)
           \<and> map_of (ParseQuery q) = (map_of (Query u))(range_keys lib (Query u) ! i \<mapsto> [payload]))"
proof -
  let ?qp = "Query u"
  let ?ks = "range_keys lib ?qp"
  let ?q = "\<lambda>key. Encode (newParams lib ?qp key payload)"
  let ?targets = "map (\<lambda>key. String (u\<lparr>RawQuery := ?q key\<rparr>)) ?ks"
  have wf: "well_formed ?qp" by (rule well_formed_Query)
  from order have d: "distinct ?ks" and keys: "set ?ks = fst ` set ?qp"
    by (simp_all add: range_ok_def)
  have gen: "GenerateTargetURLs lib inputURL payload = Inr ?targets"
    using no_token parsed params by (simp add: GenerateTargetURLs_def Let_def)
  have "length ?targets = card (set ?ks)"
    using d by (simp add: distinct_card)
  then have len: "length ?targets = card (fst ` set ?qp)"
    using keys by simp
  have each: "\<exists>q. ?targets ! i
                 = Head u @ ''?'' @ q @ (case Fragment u of None \<Rightarrow> [] | Some f \<Rightarrow> ''#'' @ f)
           \<and> map_of (ParseQuery q) = (map_of ?qp)(?ks ! i \<mapsto> [payload])"
    if i: "i < length ?targets" for i
  proof -
    from i have key: "?ks ! i \<in> set ?ks" by simp
    note np = newParams_content [OF wf order key, of payload]
    have round: "map_of (ParseQuery (?q (?ks ! i))) = (map_of ?qp)(?ks ! i \<mapsto> [payload])"
      using ParseQuery_Encode [OF np(1)] np(2) by simp
    have "?q (?ks ! i) \<noteq> []"
    proof
      assume "?q (?ks ! i) = []"
      with round have "(map_of ?qp)(?ks ! i \<mapsto> [payload]) = Map.empty"
        by (simp add: ParseQuery_empty)
      then show False by (metis map_upd_nonempty)
    qed
    then have "?targets ! i = Head u @ ''?'' @ ?q (?ks ! i)
                 @ (case Fragment u of None \<Rightarrow> [] | Some f \<Rightarrow> ''#'' @ f)"
      using i by (simp add: String_def)
    with round show ?thesis by blast
  qed
  show ?thesis using gen len each by blast
qed

theorem GenerateTargetURLs_fanout_witness:
  "\<not> Contains ''http://x/?b=x%20y&a=1#top'' ''{payload}''
   \<and> Parse reverse_lib ''http://x/?b=x%20y&a=1#top'' = Inr two_params
   \<and> Query two_params = [(''b'', [''x y'']), (''a'', [''1''])]
   \<and> range_ok reverse_lib (Query two_params)
   \<and> range_keys reverse_lib (Query two_params) = [''a'', ''b'']
   \<and> GenerateTargetURLs reverse_lib ''http://x/?b=x%20y&a=1#top'' ''rix4uni''
       = Inr [''http://x/?a=rix4uni&b=x+y#top'', ''http://x/?a=1&b=rix4uni#top'']
   \<and> (\<exists>targets. GenerateTargetURLs reverse_lib ''http://x/?b=x%20y&a=1#top'' ''rix4uni''
                    = Inr targets
          \<and> length targets = card (fst ` set (Query two_params))
          \<and> (\<forall>i < length targets. \<exists>q.
                targets ! i = Head two_params @ ''?'' @ q
                              @ (case Fragment two_params of None \<Rightarrow> [] | Some f \<Rightarrow> ''#'' @ f)
                \<and> map_of (ParseQuery q)
                    = (map_of (Query two_params))
                        (range_keys reverse_lib (Query two_params) ! i \<mapsto> [''rix4uni''])))"
proof -
  have h1: "\<not> Contains ''http://x/?b=x%20y&a=1#top'' ''{payload}''"
    by code_simp
  have h2: "Parse reverse_lib ''http://x/?b=x%20y&a=1#top'' = Inr two_params"
    by code_simp
  have q: "Query two_params = [(''b'', [''x y'']), (''a'', [''1''])]"
    by code_simp
  have h3: "Query two_params \<noteq> []"
    by (simp add: q)
  have h4: "range_ok reverse_lib (Query two_params)"
    by (auto simp: q range_ok_def reverse_lib_def)
  have ks: "range_keys reverse_lib (Query two_params) = [''a'', ''b'']"
    by (simp add: q reverse_lib_def)
  have g: "GenerateTargetURLs reverse_lib ''http://x/?b=x%20y&a=1#top'' ''rix4uni''
       = Inr [''http://x/?a=rix4uni&b=x+y#top'', ''http://x/?a=1&b=rix4uni#top'']"
    by code_simp
  show ?thesis
    using h1 h2 q h4 ks g GenerateTargetURLs_fanout [OF h1 h2 h3 h4, of "''rix4uni''"]
    by (intro conjI) assumption+
qed

text \<open>
  As stated, C1 fails. For \<^verbatim>\<open>http://x/?b=x%20y&a=1\<close> the claim asks for
  \<^verbatim>\<open>http://x/?b=rix4uni&a=1\<close> and then \<^verbatim>\<open>http://x/?b=x%20y&a=rix4uni\<close>. The generator
  writes the query anew with \<^verbatim>\<open>Values.Encode\<close>, which sorts the keys and escapes a space
  as \<^verbatim>\<open>+\<close>, so in either order of iteration over the two keys the candidates are
  others.
\<close>

theorem GenerateTargetURLs_fanout_counterexample:
  "GenerateTargetURLs plain_lib ''http://x/?b=x%20y&a=1'' ''rix4uni''
     = Inr [''http://x/?a=1&b=rix4uni'', ''http://x/?a=rix4uni&b=x+y'']
   \<and> GenerateTargetURLs reverse_lib ''http://x/?b=x%20y&a=1'' ''rix4uni''
     = Inr [''http://x/?a=rix4uni&b=x+y'', ''http://x/?a=1&b=rix4uni'']
   \<and> GenerateTargetURLs plain_lib ''http://x/?b=x%20y&a=1'' ''rix4uni''
     \<noteq> Inr [''http://x/?b=rix4uni&a=1'', ''http://x/?b=x%20y&a=rix4uni'']
   \<and> GenerateTargetURLs reverse_lib ''http://x/?b=x%20y&a=1'' ''rix4uni''
     \<noteq> Inr [''http://x/?b=rix4uni&a=1'', ''http://x/?b=x%20y&a=rix4uni'']"
proof -
  have p: "GenerateTargetURLs plain_lib ''http://x/?b=x%20y&a=1'' ''rix4uni''
     = Inr [''http://x/?a=1&b=rix4uni'', ''http://x/?a=rix4uni&b=x+y'']"
    by code_simp
  have r: "GenerateTargetURLs reverse_lib ''http://x/?b=x%20y&a=1'' ''rix4uni''
     = Inr [''http://x/?a=rix4uni&b=x+y'', ''http://x/?a=1&b=rix4uni'']"
    by code_simp
  show ?thesis
    unfolding p r by simp
qed

subsection \<open>Deadlines\<close>

text \<open>
  C6. The deadline of a rendering does not come from the configured timeout: a scanner
  built with a timeout of 5 seconds gives its HTTP client these 5 seconds, while the
  browser scanner is the same for every timeout and a rendering runs under 30 seconds.
\<close>

theorem render_deadline_fixed:
  "NewDOMScanner timeout proxy verifySSL = NewDOMScanner timeout' proxy verifySSL
   \<and> GetDOM_timeout (NewDOMScanner timeout proxy verifySSL) = 30
   \<and> NewScanner plain_lib (demo_opts\<lparr>Timeout := 5\<rparr>)
       = Inr (demo_opts\<lparr>Timeout := 5\<rparr>,
              \<lparr>InsecureSkipVerify = True, proxyURL = None, client_Timeout = 5\<rparr>,
              NewDOMScanner 5 [] False)
   \<and> GetDOM_timeout (NewDOMScanner 5 [] False) \<noteq> 5"
  by (simp add: NewDOMScanner_def GetDOM_timeout_def NewScanner_def demo_opts_def)

subsection \<open>Classification\<close>

text \<open>
  The branch taken apart: which containment tests give which verdict, for every body,
  marker and character.
\<close>

lemma classify_verdicts:
  "(classify body marker char = ALLOWED \<longleftrightarrow> Contains body (marker @ char))
   \<and> (classify body marker char = CONVERTED \<longleftrightarrow>
        \<not> Contains body (marker @ char)
        \<and> (\<exists>conv. conversions char = Some conv \<and> Contains body (marker @ conv)))
   \<and> (classify body marker char = BLOCKED \<longleftrightarrow>
        \<not> Contains body (marker @ char)
        \<and> \<not> (\<exists>conv. conversions char = Some conv \<and> Contains body (marker @ conv)))"
  by (simp add: classify_def split: option.split)

text \<open>
  C3. A round of the probe loop whose test URL was answered with a body gives the
  character exactly one of the three verdicts and files it in the slice of that verdict
  alone, leaving the two other slices as they were: allowed when the body contains
  marker+character; otherwise converted when the table has an encoded form for the
  character and the body contains marker+encodedForm; otherwise blocked. A character
  without a table entry is never converted. The marker is the fixed text
  \<^verbatim>\<open>rix4uni\<close>, the body is whatever the fetch or the rendering returned.
\<close>

theorem probe_three_verdicts:
  fixes st :: "'w state"
  assumes gen: "GenerateTargetURLs (runtime lib s (world st)) inputURL (''rix4uni'' @ char)
                  = Inr (testURL # others)"
      and ans: "fst (answer s inDOM testURL (world st)) = Inr testBody"
  shows "\<exists>v res' st'.
     probe lib s inputURL inDOM char (res, st) = (res', st')
     \<and> allowed res' = allowed res @ (if v = ALLOWED then [char] else [])
     \<and> blocked res' = blocked res @ (if v = BLOCKED then [char] else [])
     \<and> converted res' = converted res
          @ (case conversions char of
               Some conv \<Rightarrow> if v = CONVERTED then [Sprintf_conv char conv] else []
             | None \<Rightarrow> [])
     \<and> (v = ALLOWED \<longleftrightarrow> Contains testBody (''rix4uni'' @ char))
     \<and> (v = CONVERTED \<longleftrightarrow>
          \<not> Contains testBody (''rix4uni'' @ char)
          \<and> (\<exists>conv. conversions char = Some conv \<and> Contains testBody (''rix4uni'' @ conv)))
     \<and> (v = BLOCKED \<longleftrightarrow>
          \<not> Contains testBody (''rix4uni'' @ char)
          \<and> \<not> (\<exists>conv. conversions char = Some conv \<and> Contains testBody (''rix4uni'' @ conv)))
     \<and> (conversions char = None \<longrightarrow> v \<noteq> CONVERTED)"
proof -
  obtain res' st' where run: "probe lib s inputURL inDOM char (res, st) = (res', st')"
    by (cases "probe lib s inputURL inDOM char (res, st)")
  define v where "v = classify testBody ''rix4uni'' char"
  have filed: "res' = (case v of
                 ALLOWED \<Rightarrow> res\<lparr>allowed := allowed res @ [char]\<rparr>
               | BLOCKED \<Rightarrow> res\<lparr>blocked := blocked res @ [char]\<rparr>
               | CONVERTED \<Rightarrow>
                   (case conversions char of
                      Some conv \<Rightarrow> res\<lparr>converted := converted res @ [Sprintf_conv char conv]\<rparr>
                    | None \<Rightarrow> res))"
    using run
  proof (cases rule: probe_cases)
    case skipped
    with gen show ?thesis by simp
  next
    case (failed testURL' others' err evs)
    with gen ans show ?thesis by simp
  next
    case (classified testURL' others' testBody' evs)
    with gen ans have "testBody' = testBody" by simp
    with classified(7) show ?thesis by (simp add: v_def)
  qed
  have a: "v = ALLOWED \<longleftrightarrow> Contains testBody (''rix4uni'' @ char)"
    unfolding v_def using classify_verdicts [of testBody "''rix4uni''" char] by blast
  have c: "v = CONVERTED \<longleftrightarrow>
          \<not> Contains testBody (''rix4uni'' @ char)
          \<and> (\<exists>conv. conversions char = Some conv \<and> Contains testBody (''rix4uni'' @ conv))"
    unfolding v_def using classify_verdicts [of testBody "''rix4uni''" char] by blast
  have b: "v = BLOCKED \<longleftrightarrow>
          \<not> Contains testBody (''rix4uni'' @ char)
          \<and> \<not> (\<exists>conv. conversions char = Some conv \<and> Contains testBody (''rix4uni'' @ conv))"
    unfolding v_def using classify_verdicts [of testBody "''rix4uni''" char] by blast
  have n: "conversions char = None \<longrightarrow> v \<noteq> CONVERTED"
    using c by simp
  have f1: "allowed res' = allowed res @ (if v = ALLOWED then [char] else [])"
    unfolding filed by (cases v; cases "conversions char") simp_all
  have f2: "blocked res' = blocked res @ (if v = BLOCKED then [char] else [])"
    unfolding filed by (cases v; cases "conversions char") simp_all
  have f3: "converted res' = converted res
          @ (case conversions char of
               Some conv \<Rightarrow> if v = CONVERTED then [Sprintf_conv char conv] else []
             | None \<Rightarrow> [])"
    unfolding filed by (cases v; cases "conversions char") simp_all
  show ?thesis
    apply (rule exI [of _ v], rule exI [of _ res'], rule exI [of _ st'])
    using run f1 f2 f3 a c b n by (intro conjI) assumption+
qed

theorem probe_three_verdicts_witness:
  "GenerateTargetURLs (runtime plain_lib static_site (world start)) ''http://x/?q=1''
       (''rix4uni'' @ ''('') = Inr [''http://x/?q=rix4uni%28'']
   \<and> fst (answer static_site False ''http://x/?q=rix4uni%28'' (world start))
       = Inr ''<p>http://x/?q=rix4uni(</p>''
   \<and> conversions ''('' = None
   \<and> fst (probe plain_lib static_site ''http://x/?q=1'' False ''(''
             (\<lparr>allowed = [], blocked = [], converted = []\<rparr>, start))
       = \<lparr>allowed = [''(''], blocked = [], converted = []\<rparr>
   \<and> GenerateTargetURLs (runtime plain_lib static_site (world start)) ''http://x/?a=1&b=2''
       (''rix4uni'' @ [CHR 0x22])
       = Inr [''http://x/?a=rix4uni%22&b=2'', ''http://x/?a=1&b=rix4uni%22'']
   \<and> fst (answer static_site False ''http://x/?a=rix4uni%22&b=2'' (world start))
       = Inr ''<p>http://x/?a=rix4uni&quot;&b=2</p>''
   \<and> conversions [CHR 0x22] = Some ''&quot;''
   \<and> fst (probe plain_lib static_site ''http://x/?a=1&b=2'' False [CHR 0x22]
             (\<lparr>allowed = [''(''], blocked = [], converted = []\<rparr>, start))
       = \<lparr>allowed = [''(''], blocked = [],
          converted = [Sprintf_conv [CHR 0x22] ''&quot;'']\<rparr>
   \<and> GenerateTargetURLs (runtime plain_lib static_site (world start)) ''http://x/?q=1''
       (''rix4uni'' @ [CHR 0x27]) = Inr [''http://x/?q=rix4uni%27'']
   \<and> fst (answer static_site False ''http://x/?q=rix4uni%27'' (world start))
       = Inr ''<p>http://x/?q=rix4uni%27</p>''
   \<and> fst (probe plain_lib static_site ''http://x/?q=1'' False [CHR 0x27]
             (\<lparr>allowed = [], blocked = [], converted = []\<rparr>, start))
       = \<lparr>allowed = [], blocked = [[CHR 0x27]], converted = []\<rparr>"
proof -
  let ?none = "\<lparr>allowed = [], blocked = [], converted = []\<rparr>"
  let ?one = "\<lparr>allowed = [''(''], blocked = [], converted = []\<rparr>"
  have g1: "GenerateTargetURLs (runtime plain_lib static_site (world start)) ''http://x/?q=1''
       (''rix4uni'' @ ''('') = Inr [''http://x/?q=rix4uni%28'']"
    by code_simp
  have a1: "fst (answer static_site False ''http://x/?q=rix4uni%28'' (world start))
       = Inr ''<p>http://x/?q=rix4uni(</p>''"
    by code_simp
  have c1: "Contains ''<p>http://x/?q=rix4uni(</p>'' (''rix4uni'' @ ''('')"
    "conversions ''('' = None"
    by code_simp+
  have g2: "GenerateTargetURLs (runtime plain_lib static_site (world start)) ''http://x/?a=1&b=2''
       (''rix4uni'' @ [CHR 0x22])
       = Inr [''http://x/?a=rix4uni%22&b=2'', ''http://x/?a=1&b=rix4uni%22'']"
    by code_simp
  have a2: "fst (answer static_site False ''http://x/?a=rix4uni%22&b=2'' (world start))
       = Inr ''<p>http://x/?a=rix4uni&quot;&b=2</p>''"
    by code_simp
  have c2: "\<not> Contains ''<p>http://x/?a=rix4uni&quot;&b=2</p>'' (''rix4uni'' @ [CHR 0x22])"
    "conversions [CHR 0x22] = Some ''&quot;''"
    "Contains ''<p>http://x/?a=rix4uni&quot;&b=2</p>'' (''rix4uni'' @ ''&quot;'')"
    by code_simp+
  have g3: "GenerateTargetURLs (runtime plain_lib static_site (world start)) ''http://x/?q=1''
       (''rix4uni'' @ [CHR 0x27]) = Inr [''http://x/?q=rix4uni%27'']"
    by code_simp
  have a3: "fst (answer static_site False ''http://x/?q=rix4uni%27'' (world start))
       = Inr ''<p>http://x/?q=rix4uni%27</p>''"
    by code_simp
  have c3: "\<not> Contains ''<p>http://x/?q=rix4uni%27</p>'' (''rix4uni'' @ [CHR 0x27])"
    "conversions [CHR 0x27] = Some ''&#039;''"
    "\<not> Contains ''<p>http://x/?q=rix4uni%27</p>'' (''rix4uni'' @ ''&#039;'')"
    by code_simp+
  have r1: "fst (probe plain_lib static_site ''http://x/?q=1'' False ''('' (?none, start))
              = \<lparr>allowed = [''(''], blocked = [], converted = []\<rparr>"
    using probe_three_verdicts [OF g1 a1, of ?none] c1
    by (auto simp del: Contains.simps)
  have r2: "fst (probe plain_lib static_site ''http://x/?a=1&b=2'' False [CHR 0x22] (?one, start))
              = \<lparr>allowed = [''(''], blocked = [],
                 converted = [Sprintf_conv [CHR 0x22] ''&quot;'']\<rparr>"
    using probe_three_verdicts [OF g2 a2, of ?one] c2
    by (auto simp del: Contains.simps)
  have r3: "fst (probe plain_lib static_site ''http://x/?q=1'' False [CHR 0x27] (?none, start))
              = \<lparr>allowed = [], blocked = [[CHR 0x27]], converted = []\<rparr>"
    using probe_three_verdicts [OF g3 a3, of ?none] c3
    by (auto simp del: Contains.simps)
  show ?thesis
    using g1 a1 c1(2) r1 g2 a2 c2(2) r2 g3 a3 r3 by (intro conjI) assumption+
qed

end
